theory Spec2Isabelle
  imports Complex_Main "HOL-Library.AList" "HOL-Library.Multiset"
begin

section \<open>Data model\<close>

text \<open>
  Candidates are Python strings.  Vote weights are \<^verbatim>\<open>fractions.Fraction\<close> values, hence
  exact rationals; seat counts, round numbers and the threshold are Python integers.
\<close>

type_synonym cand = string

text \<open>
  Modelled from the spec: the class \<^verbatim>\<open>Ballot\<close> (\<^verbatim>\<open>ballot.py\<close> is not among the sources).
  A ballot has a \<^verbatim>\<open>ranking\<close>, an ordered sequence of sets of candidates (each set a tie
  group), and a rational \<^verbatim>\<open>weight\<close>.
\<close>

record Ballot =
  ranking :: "cand set list"
  weight :: rat

subsection \<open>The store of shared list objects\<close>

text \<open>
  Two kinds of Python objects are shared between a round record and the code of
  \<^verbatim>\<open>run_step\<close> and are changed in place: the list of remaining candidates
  (\<^verbatim>\<open>remaining.remove(...)\<close>) and the ballots of a ballot list
  (\<^verbatim>\<open>ballot.weight = ...\<close>, \<^verbatim>\<open>update[n].ranking = ...\<close>).  Both live in a store; a
  reference is an index into it and a new object is appended at the end.  A ballot list
  is stored together with its ballots: the ballots of one list are distinct objects and
  belong to that list alone.
\<close>

type_synonym ref = nat

type_synonym ballot_store = "Ballot list list"

record heap =
  cand_lists :: "cand list list"
  ballot_lists :: ballot_store

definition new_cand_list :: "cand list \<Rightarrow> heap \<Rightarrow> ref \<times> heap" where
  "new_cand_list xs h = (length (cand_lists h), h\<lparr>cand_lists := cand_lists h @ [xs]\<rparr>)"

definition new_ballot_list :: "Ballot list \<Rightarrow> ballot_store \<Rightarrow> ref \<times> ballot_store" where
  "new_ballot_list bs bh = (length bh, bh @ [bs])"

text \<open>The exceptions the code can raise; a \<^verbatim>\<open>ValueError\<close> carries its message.\<close>

datatype error = ValueError string | IndexError | KeyError | ZeroDivisionError

text \<open>
  \<^verbatim>\<open>list.remove(x)\<close>: deletes the first occurrence of \<open>x\<close> from the list object, in place,
  and raises \<^verbatim>\<open>ValueError\<close> when there is none.
\<close>

definition list_remove :: "cand \<Rightarrow> ref \<Rightarrow> heap \<Rightarrow> error + heap" where
  "list_remove x r h =
     (if x \<in> set (cand_lists h ! r)
      then Inr (h\<lparr>cand_lists := (cand_lists h)[r := remove1 x (cand_lists h ! r)]\<rparr>)
      else Inl (ValueError ''list.remove(x): x not in list''))"

subsection \<open>PreferenceProfile\<close>

text \<open>
  Modelled from the spec: the class \<^verbatim>\<open>PreferenceProfile\<close> (\<^verbatim>\<open>profile.py\<close> is not among the
  sources).  A profile holds the ordered sequence of its ballots, here the reference of
  that list object; \<^verbatim>\<open>get_ballots()\<close> returns it, \<^verbatim>\<open>num_ballots()\<close> is the sum of the
  ballot weights and \<^verbatim>\<open>get_candidates()\<close> is the set union of all ranked candidates.
\<close>

record PreferenceProfile =
  ballots :: ref

definition get_ballots :: "PreferenceProfile \<Rightarrow> ref" where
  "get_ballots p = ballots p"

definition num_ballots :: "PreferenceProfile \<Rightarrow> heap \<Rightarrow> rat" where
  "num_ballots p h = sum_list (map weight (ballot_lists h ! ballots p))"

definition candidates_of :: "Ballot list \<Rightarrow> cand set" where
  "candidates_of bs = \<Union> (set (concat (map ranking bs)))"

text \<open>
  Modelled from the spec: \<^verbatim>\<open>get_candidates()\<close> hands the set of candidates to
  \<^verbatim>\<open>compute_votes\<close>, which iterates over it.  The order in which Python enumerates a set
  is not fixed, so the enumeration \<open>cs\<close> is a parameter of the constructor below and
  this predicate says which lists it may be.
\<close>

definition get_candidates_returns :: "PreferenceProfile \<Rightarrow> heap \<Rightarrow> cand list \<Rightarrow> bool" where
  "get_candidates_returns p h cs =
     (distinct cs \<and> set cs = candidates_of (ballot_lists h ! ballots p))"

section \<open>election_state.py\<close>

text \<open>
  \<^verbatim>\<open>ElectionState\<close> is a pydantic model with \<^verbatim>\<open>allow_mutation = False\<close>: its attributes cannot
  be assigned after construction.  \<^verbatim>\<open>elected\<close> and \<^verbatim>\<open>eliminated\<close> are built freshly for
  each record and never touched again, so they are values; \<^verbatim>\<open>remaining\<close> is the reference
  of the record's list object, which \<^verbatim>\<open>run_step\<close> reads back and changes in place.
  \<^verbatim>\<open>previous\<close> links the record to the one before it.
\<close>

datatype ElectionState = ElectionState
  (curr_round: int)
  (elected: "cand list")
  (eliminated: "cand list")
  (remaining: ref)
  (profile: PreferenceProfile)
  (winner_votes: "(cand \<times> Ballot list) list option")
  (previous: "ElectionState option")

text \<open>
  The constructor.  pydantic validates a \<^verbatim>\<open>list[str]\<close> field by building a new list from
  the items it is given, so the record holds a list object of its own with the given
  content.
\<close>

definition new_ElectionState ::
  "int \<Rightarrow> cand list \<Rightarrow> cand list \<Rightarrow> cand list \<Rightarrow> PreferenceProfile \<Rightarrow>
   ElectionState option \<Rightarrow> heap \<Rightarrow> ElectionState \<times> heap" where
  "new_ElectionState n el elim rem prof prev h =
     (let (r, h') = new_cand_list rem h
      in (ElectionState n el elim r prof None prev, h'))"

fun get_all_winners :: "ElectionState \<Rightarrow> cand list" where
  "get_all_winners (ElectionState n el elim r prof wv prev) =
     (case prev of
        Some s \<Rightarrow> get_all_winners s @ el
      | None \<Rightarrow> el)"

fun get_all_eliminated :: "ElectionState \<Rightarrow> cand list" where
  "get_all_eliminated (ElectionState n el elim r prof wv prev) =
     rev elim @ (case prev of Some s \<Rightarrow> get_all_eliminated s | None \<Rightarrow> [])"

definition get_rankings :: "ElectionState \<Rightarrow> heap \<Rightarrow> cand list" where
  "get_rankings s h =
     get_all_winners s @ cand_lists h ! remaining s @ get_all_eliminated s"

text \<open>
  \<^verbatim>\<open>get_round_outcome\<close> returns the dictionary
  \<^verbatim>\<open>{"elected": self.elected, "eliminated": self.eliminated}\<close>, here the pair of the two
  lists.
\<close>

fun get_round_outcome :: "ElectionState \<Rightarrow> int \<Rightarrow> error + (cand list \<times> cand list)" where
  "get_round_outcome (ElectionState n el elim r prof wv prev) roundNum =
     (if n = roundNum then Inr (el, elim)
      else (case prev of
              Some s \<Rightarrow> get_round_outcome s roundNum
            | None \<Rightarrow> Inl (ValueError ''Round number out of range'')))"

section \<open>election_types.py: the helper functions\<close>

text \<open>The test \<^verbatim>\<open>ballot.ranking and ballot.ranking[0] == {candidate}\<close>.\<close>

definition first_is :: "cand \<Rightarrow> Ballot \<Rightarrow> bool" where
  "first_is c b = (ranking b \<noteq> [] \<and> hd (ranking b) = {c})"

text \<open>The inner loop of \<^verbatim>\<open>compute_votes\<close>, starting from \<^verbatim>\<open>Fraction(0)\<close>.\<close>

definition first_place_weight :: "cand \<Rightarrow> Ballot list \<Rightarrow> rat" where
  "first_place_weight c bs = foldl (\<lambda>w b. if first_is c b then w + weight b else w) 0 bs"

text \<open>
  \<^verbatim>\<open>compute_votes\<close>: the dictionary \<^verbatim>\<open>votes\<close> keeps its keys in the order of their first
  insertion (\<open>AList.update\<close>), and \<^verbatim>\<open>sorted(..., key=lambda x: x[1], reverse=True)\<close> is a
  stable sort by descending votes.  A \<^verbatim>\<open>CandidateVotes\<close> tuple is the pair of its
  \<^verbatim>\<open>cand\<close> and its \<^verbatim>\<open>votes\<close>.
\<close>

definition compute_votes :: "cand list \<Rightarrow> Ballot list \<Rightarrow> (cand \<times> rat) list" where
  "compute_votes candidates bs =
     (let votes = foldl (\<lambda>d c. AList.update c (first_place_weight c bs) d) [] candidates
      in sort_key (\<lambda>kv. - snd kv) votes)"

text \<open>The dictionary comprehension \<^verbatim>\<open>{cand: votes for cand, votes in fp_votes}\<close>.\<close>

definition dict_of :: "(cand \<times> rat) list \<Rightarrow> (cand \<rightharpoonup> rat)" where
  "dict_of kvs = foldl (\<lambda>d kv. d(fst kv \<mapsto> snd kv)) Map.empty kvs"

text \<open>
  \<^verbatim>\<open>remove_cand\<close>: \<^verbatim>\<open>deepcopy(ballots)\<close> makes a new list of new ballots, and the loop gives
  every ballot of the copy the ranking without the tie groups equal to
  \<^verbatim>\<open>{removed_cand}\<close>.  The list it was given is left as it is.
\<close>

definition remove_cand :: "cand \<Rightarrow> ref \<Rightarrow> ballot_store \<Rightarrow> ref \<times> ballot_store" where
  "remove_cand removed_cand p bh =
     (let (u, bh1) = new_ballot_list (bh ! p) bh
      in (u, bh1[u := map (\<lambda>b. b\<lparr>ranking := filter (\<lambda>g. g \<noteq> {removed_cand}) (ranking b)\<rparr>)
                          (bh1 ! u)]))"

text \<open>
  A transfer strategy is called with the winner, the ballot list, the dictionary of
  votes and the threshold; it works on the ballots and returns a ballot list, or raises.
\<close>

type_synonym transfer_fn =
  "cand \<Rightarrow> ref \<Rightarrow> (cand \<rightharpoonup> rat) \<Rightarrow> int \<Rightarrow> ballot_store \<Rightarrow> error + (ref \<times> ballot_store)"

text \<open>
  \<^verbatim>\<open>fractional_transfer\<close>: \<^verbatim>\<open>votes[winner]\<close> raises \<^verbatim>\<open>KeyError\<close> for a missing key and the
  division raises \<^verbatim>\<open>ZeroDivisionError\<close>; the loop then rescales, in place, the weight of
  the ballots of the list it was given, and only after that \<^verbatim>\<open>remove_cand\<close> copies them.
\<close>

definition fractional_transfer :: transfer_fn where
  "fractional_transfer winner p votes thr bh =
     (case votes winner of
        None \<Rightarrow> Inl KeyError
      | Some v \<Rightarrow>
          if v = 0 then Inl ZeroDivisionError
          else (let transfer_value = (v - of_int thr) / v;
                    bh1 = bh[p := map (\<lambda>b. if first_is winner b
                                            then b\<lparr>weight := weight b * transfer_value\<rparr>
                                            else b) (bh ! p)]
                in Inr (remove_cand winner p bh1)))"

text \<open>
  \<^verbatim>\<open>random.choice(seq)\<close> returns \<^verbatim>\<open>seq[i]\<close> for a random index \<open>i\<close> below the length, and
  raises \<^verbatim>\<open>IndexError\<close> on an empty sequence.  The random draw is a parameter.
\<close>

definition random_choice :: "nat \<Rightarrow> 'a list \<Rightarrow> error + 'a" where
  "random_choice draw xs =
     (if xs = [] then Inl IndexError else Inr (xs ! (draw mod length xs)))"

section \<open>election_types.py: the class STV\<close>

record STV =
  init_profile :: PreferenceProfile
  transfer :: transfer_fn
  seats :: int
  election_state :: ElectionState
  threshold :: int

text \<open>\<^verbatim>\<open>int(x)\<close> of a \<^verbatim>\<open>Fraction\<close> truncates towards zero.\<close>

definition py_int :: "rat \<Rightarrow> int" where
  "py_int q = (if 0 \<le> q then \<lfloor>q\<rfloor> else \<lceil>q\<rceil>)"

text \<open>
  \<^verbatim>\<open>get_threshold\<close>, called once by the constructor, reads the profile of the current
  record and the seat count.
\<close>

definition get_threshold :: "ElectionState \<Rightarrow> int \<Rightarrow> heap \<Rightarrow> error + int" where
  "get_threshold st s h =
     (if s + 1 = 0 then Inl ZeroDivisionError
      else Inr (py_int (num_ballots (profile st) h / of_int (s + 1) + 1)))"

text \<open>
  \<^verbatim>\<open>STV.__init__\<close>; \<open>cands\<close> is the list that \<^verbatim>\<open>profile.get_candidates()\<close> returned.
\<close>

definition STV_init ::
  "cand list \<Rightarrow> PreferenceProfile \<Rightarrow> transfer_fn \<Rightarrow> int \<Rightarrow> heap \<Rightarrow> error + (STV \<times> heap)" where
  "STV_init cands prof tr s h =
     (let (st, h') =
            new_ElectionState 0 [] []
              (map fst (compute_votes cands (ballot_lists h ! get_ballots prof))) prof None h
      in case get_threshold st s h' of
           Inl err \<Rightarrow> Inl err
         | Inr t \<Rightarrow>
             Inr (\<lparr>init_profile = prof, transfer = tr, seats = s, election_state = st,
                   threshold = t\<rparr>, h'))"

definition next_round :: "STV \<Rightarrow> bool" where
  "next_round e = (int (length (get_all_winners (election_state e))) \<noteq> seats e)"

text \<open>
  The loop of the second branch of \<^verbatim>\<open>run_step\<close> over \<^verbatim>\<open>fp_votes\<close>: \<open>fp\<close> is the whole
  list, from which the dictionary is built anew for every winner, \<open>el\<close> the list
  \<^verbatim>\<open>elected\<close>, \<open>r\<close> the list object \<^verbatim>\<open>remaining\<close> and \<open>p\<close> the ballot list \<^verbatim>\<open>ballots\<close>.
\<close>

fun elect_loop ::
  "transfer_fn \<Rightarrow> int \<Rightarrow> (cand \<times> rat) list \<Rightarrow> (cand \<times> rat) list \<Rightarrow> cand list \<Rightarrow> ref \<Rightarrow> ref \<Rightarrow>
   heap \<Rightarrow> error + (cand list \<times> ref \<times> heap)" where
  "elect_loop tr thr fp [] el r p h = Inr (el, p, h)"
| "elect_loop tr thr fp (cv # rest) el r p h =
     (if of_int thr \<le> snd cv
      then (case list_remove (fst cv) r h of
              Inl err \<Rightarrow> Inl err
            | Inr h1 \<Rightarrow>
                (case tr (fst cv) p (dict_of fp) thr (ballot_lists h1) of
                   Inl err \<Rightarrow> Inl err
                 | Inr (p', bh') \<Rightarrow>
                     elect_loop tr thr fp rest (el @ [fst cv]) r p' (h1\<lparr>ballot_lists := bh'\<rparr>)))
      else elect_loop tr thr fp rest el r p h)"

text \<open>
  The end of \<^verbatim>\<open>run_step\<close>: the new record, with the next round number, a profile on the
  ballot list \<open>p\<close> and the old record as \<^verbatim>\<open>previous\<close>, becomes the current one.
\<close>

definition advance ::
  "STV \<Rightarrow> cand list \<Rightarrow> cand list \<Rightarrow> cand list \<Rightarrow> ref \<Rightarrow> heap \<Rightarrow> STV \<times> heap" where
  "advance e el elim rem p h =
     (let st = election_state e;
          (st', h') = new_ElectionState (curr_round st + 1) el elim rem
                        \<lparr>ballots = p\<rparr> (Some st) h
      in (e\<lparr>election_state := st'\<rparr>, h'))"

text \<open>
  \<^verbatim>\<open>run_step\<close>.  The local \<^verbatim>\<open>remaining\<close> is the list object of the current record and
  \<^verbatim>\<open>ballots\<close> the ballot list of its profile.  In the first branch both names are bound
  to new empty lists; the other branches work on the objects themselves.  An exception
  ends the call with no new record (\<open>Inl\<close>); what it leaves in the store is not
  modelled.
\<close>

definition run_step :: "nat \<Rightarrow> STV \<Rightarrow> heap \<Rightarrow> error + (STV \<times> heap)" where
  "run_step draw e h =
     (let st = election_state e;
          r = remaining st;
          p = get_ballots (profile st);
          fp_votes = compute_votes (cand_lists h ! r) (ballot_lists h ! p)
      in if int (length (cand_lists h ! r)) = seats e - int (length (get_all_winners st))
         then (let (p', bh') = new_ballot_list [] (ballot_lists h)
               in Inr (advance e (map fst fp_votes) [] [] p' (h\<lparr>ballot_lists := bh'\<rparr>)))
         else (case fp_votes of
                 [] \<Rightarrow> Inl IndexError
               | cv # _ \<Rightarrow>
                   if of_int (threshold e) \<le> snd cv
                   then (case elect_loop (transfer e) (threshold e) fp_votes fp_votes [] r p h of
                           Inl err \<Rightarrow> Inl err
                         | Inr (el, p', h') \<Rightarrow>
                             Inr (advance e el [] (cand_lists h' ! r) p' h'))
                   else if next_round e
                   then (let lp_votes = Min (set (map snd fp_votes));
                             lp_candidates = map fst (filter (\<lambda>cv. snd cv = lp_votes) fp_votes)
                         in case random_choice draw lp_candidates of
                              Inl err \<Rightarrow> Inl err
                            | Inr lp_cand \<Rightarrow>
                                (let (p', bh') = remove_cand lp_cand p (ballot_lists h)
                                 in case list_remove lp_cand r (h\<lparr>ballot_lists := bh'\<rparr>) of
                                      Inl err \<Rightarrow> Inl err
                                    | Inr h' \<Rightarrow>
                                        Inr (advance e [] [lp_cand] (cand_lists h' ! r) p' h')))
                   else Inr (advance e [] [] (cand_lists h ! r) p h)))"

text \<open>
  \<^verbatim>\<open>run_election\<close>.  The loop takes one random draw per round; \<open>None\<close> says that the
  draws were used up while \<^verbatim>\<open>next_round()\<close> still held.
\<close>

fun run_loop :: "nat list \<Rightarrow> STV \<Rightarrow> heap \<Rightarrow> (error + STV \<times> heap) option" where
  "run_loop [] e h = (if next_round e then None else Some (Inr (e, h)))"
| "run_loop (d # ds) e h =
     (if next_round e
      then (case run_step d e h of
              Inl err \<Rightarrow> Some (Inl err)
            | Inr (e', h') \<Rightarrow> run_loop ds e' h')
      else Some (Inr (e, h)))"

definition run_election :: "nat list \<Rightarrow> STV \<Rightarrow> heap \<Rightarrow> (error + STV \<times> heap) option" where
  "run_election draws e h =
     (if \<not> next_round e
      then Some (Inl (ValueError ''Length of elected set equal to number of seats''))
      else run_loop draws e h)"

section \<open>Notions used to state the properties\<close>

text \<open>The dictionary \<^verbatim>\<open>votes\<close> of \<^verbatim>\<open>compute_votes\<close> before it is sorted.\<close>

definition votes_dict :: "cand list \<Rightarrow> Ballot list \<Rightarrow> (cand \<times> rat) list" where
  "votes_dict cs bs = foldl (\<lambda>d c. AList.update c (first_place_weight c bs) d) [] cs"

text \<open>The records of a chain, walking the \<^verbatim>\<open>previous\<close> links from the given record.\<close>

fun chain :: "ElectionState \<Rightarrow> ElectionState list" where
  "chain (ElectionState n el elim r prof wv prev) =
     ElectionState n el elim r prof wv prev # (case prev of Some s \<Rightarrow> chain s | None \<Rightarrow> [])"

text \<open>What the loop of \<^verbatim>\<open>remove_cand\<close> does to one ballot.\<close>

definition strip_cand :: "cand \<Rightarrow> Ballot \<Rightarrow> Ballot" where
  "strip_cand c b = b\<lparr>ranking := filter (\<lambda>g. g \<noteq> {c}) (ranking b)\<rparr>"

text \<open>What the loop of \<^verbatim>\<open>fractional_transfer\<close> does to one ballot.\<close>

definition scale_winner :: "cand \<Rightarrow> rat \<Rightarrow> Ballot \<Rightarrow> Ballot" where
  "scale_winner w tv b = (if first_is w b then b\<lparr>weight := weight b * tv\<rparr> else b)"

text \<open>Successive calls of \<^verbatim>\<open>run_step\<close>, one for each random draw of the list.\<close>

fun run_steps :: "nat list \<Rightarrow> STV \<Rightarrow> heap \<Rightarrow> error + (STV \<times> heap)" where
  "run_steps [] e h = Inr (e, h)"
| "run_steps (d # ds) e h =
     (case run_step d e h of Inl err \<Rightarrow> Inl err | Inr (e', h') \<Rightarrow> run_steps ds e' h')"

text \<open>
  The ballots of \<^verbatim>\<open>tests/test_election_state.py\<close> (250 ballots A > B > C, 200 ballots
  B > A > C, 100 ballots C > B > A), their profile, and a store that holds nothing but
  their list.
\<close>

definition b1 :: Ballot where
  "b1 = \<lparr>ranking = [{''A''}, {''B''}, {''C''}], weight = 250\<rparr>"

definition b2 :: Ballot where
  "b2 = \<lparr>ranking = [{''B''}, {''A''}, {''C''}], weight = 200\<rparr>"

definition b3 :: Ballot where
  "b3 = \<lparr>ranking = [{''C''}, {''B''}, {''A''}], weight = 100\<rparr>"

definition pref_0 :: PreferenceProfile where
  "pref_0 = \<lparr>ballots = 0\<rparr>"

definition store_0 :: heap where
  "store_0 = \<lparr>cand_lists = [], ballot_lists = [[b1, b2, b3]]\<rparr>"

text \<open>
  The engine as the constructor leaves it for these ballots, up to the seat count \<open>s\<close>
  and the threshold \<open>t\<close> it computes from them: the record of round 0 and the store
  with the list of the remaining candidates.
\<close>

definition round_0 :: ElectionState where
  "round_0 = ElectionState 0 [] [] 0 pref_0 None None"

definition store_1 :: heap where
  "store_1 = \<lparr>cand_lists = [[''A'', ''B'', ''C'']], ballot_lists = [[b1, b2, b3]]\<rparr>"

definition stv_1 :: "int \<Rightarrow> int \<Rightarrow> STV" where
  "stv_1 s t = \<lparr>init_profile = pref_0, transfer = fractional_transfer, seats = s,
                election_state = round_0, threshold = t\<rparr>"

text \<open>
  The transfer strategy applied for the winners of a round one after the other, every
  call with the same dictionary of votes and on the ballot list the call before it
  returned.
\<close>

fun transfer_all ::
  "transfer_fn \<Rightarrow> int \<Rightarrow> (cand \<rightharpoonup> rat) \<Rightarrow> cand list \<Rightarrow> ref \<Rightarrow> ballot_store \<Rightarrow>
   error + (ref \<times> ballot_store)" where
  "transfer_all tr thr votes [] p bh = Inr (p, bh)"
| "transfer_all tr thr votes (w # ws) p bh =
     (case tr w p votes thr bh of
        Inl err \<Rightarrow> Inl err
      | Inr (p', bh') \<Rightarrow> transfer_all tr thr votes ws p' bh')"

text \<open>
  What holds of the engine and the store before every round of an election that
  \<^verbatim>\<open>fractional_transfer\<close> runs on ballots of total weight \<open>W0\<close>: the references of the
  current record are in the store, the remaining candidates are distinct, no weight is
  negative, the threshold is positive and more than \<open>W0 / (seats + 1)\<close>, every winner
  so far has taken a threshold's worth of weight out of the ballots, and there are at
  least as many remaining candidates as seats left.
\<close>

definition election_inv :: "rat \<Rightarrow> STV \<Rightarrow> heap \<Rightarrow> bool" where
  "election_inv W0 e h \<longleftrightarrow>
     remaining (election_state e) < length (cand_lists h)
     \<and> ballots (profile (election_state e)) < length (ballot_lists h)
     \<and> distinct (cand_lists h ! remaining (election_state e))
     \<and> (\<forall>b \<in> set (ballot_lists h ! ballots (profile (election_state e))). 0 \<le> weight b)
     \<and> transfer e = fractional_transfer
     \<and> 0 < threshold e
     \<and> W0 < of_int ((seats e + 1) * threshold e)
     \<and> sum_list (map weight (ballot_lists h ! ballots (profile (election_state e))))
         + of_int (int (length (get_all_winners (election_state e))) * threshold e) \<le> W0
     \<and> int (length (get_all_winners (election_state e))) \<le> seats e
     \<and> seats e - int (length (get_all_winners (election_state e)))
         \<le> int (length (cand_lists h ! remaining (election_state e)))"

section \<open>Properties\<close>

lemma first_place_weight_sum:
  "first_place_weight c bs = sum_list (map weight (filter (first_is c) bs))"
proof -
  have "foldl (\<lambda>w b. if first_is c b then w + weight b else w) a bs
          = a + sum_list (map weight (filter (first_is c) bs))" for a
    by (induction bs arbitrary: a) simp_all
  then show ?thesis by (simp add: first_place_weight_def)
qed

subsection \<open>compute_votes\<close>

lemma foldl_update_map_of:
  "map_of (foldl (\<lambda>d c. AList.update c (f c) d) d0 cs) k =
     (if k \<in> set cs then Some (f k) else map_of d0 k)"
  by (induction cs arbitrary: d0) (simp_all add: update_conv')

lemma foldl_update_distinct:
  "distinct (map fst d0) \<Longrightarrow> distinct (map fst (foldl (\<lambda>d c. AList.update c (f c) d) d0 cs))"
  by (induction cs arbitrary: d0) (simp_all add: distinct_update)

lemma foldl_update_keys:
  "fst ` set (foldl (\<lambda>d c. AList.update c (f c) d) d0 cs) = fst ` set d0 \<union> set cs"
  by (induction cs arbitrary: d0) (auto simp add: dom_update)

lemma compute_votes_sort:
  "compute_votes cs bs = sort_key (\<lambda>kv. - snd kv) (votes_dict cs bs)"
  by (simp add: compute_votes_def votes_dict_def)

lemma compute_votes_distinct: "distinct (map fst (compute_votes cs bs))"
proof -
  have "distinct (map fst (votes_dict cs bs))"
    unfolding votes_dict_def by (rule foldl_update_distinct) simp
  moreover have "mset (map fst (compute_votes cs bs)) = mset (map fst (votes_dict cs bs))"
    by (simp add: compute_votes_sort)
  ultimately show ?thesis by (metis mset_eq_imp_distinct_iff)
qed

lemma compute_votes_keys: "fst ` set (compute_votes cs bs) = set cs"
  by (simp add: compute_votes_sort votes_dict_def foldl_update_keys)

lemma compute_votes_map_of:
  "map_of (compute_votes cs bs) c =
     (if c \<in> set cs then Some (first_place_weight c bs) else None)"
proof -
  have d: "distinct (map fst (votes_dict cs bs))"
    unfolding votes_dict_def by (rule foldl_update_distinct) simp
  have "map_of (compute_votes cs bs) = map_of (votes_dict cs bs)"
    unfolding compute_votes_sort
    by (rule map_of_inject_set[THEN iffD2]) (use d compute_votes_distinct[of cs bs] in \<open>simp_all add: compute_votes_sort\<close>)
  then show ?thesis
    by (simp add: votes_dict_def foldl_update_map_of)
qed

lemma compute_votes_mem:
  "(c, v) \<in> set (compute_votes cs bs) \<longleftrightarrow> c \<in> set cs \<and> v = first_place_weight c bs"
proof
  assume m: "(c, v) \<in> set (compute_votes cs bs)"
  then have "map_of (compute_votes cs bs) c = Some v"
    using compute_votes_distinct by (simp add: map_of_is_SomeI)
  then show "c \<in> set cs \<and> v = first_place_weight c bs"
    by (simp add: compute_votes_map_of split: if_splits)
next
  assume "c \<in> set cs \<and> v = first_place_weight c bs"
  then have "map_of (compute_votes cs bs) c = Some v"
    by (simp add: compute_votes_map_of)
  then show "(c, v) \<in> set (compute_votes cs bs)"
    by (rule map_of_SomeD)
qed

lemma compute_votes_perm:
  assumes "distinct cs"
  shows "mset (map fst (compute_votes cs bs)) = mset cs"
proof -
  have "set (map fst (compute_votes cs bs)) = set cs"
    using compute_votes_keys by simp
  then show ?thesis
    using assms compute_votes_distinct by (metis set_eq_iff_mset_eq_distinct)
qed

lemma compute_votes_length: "distinct cs \<Longrightarrow> length (compute_votes cs bs) = length cs"
  by (metis compute_votes_perm length_map size_mset)

lemma compute_votes_sorted:
  "sorted_wrt (\<lambda>x y. snd y \<le> snd x) (compute_votes cs bs)"
proof -
  have "sorted (map (\<lambda>kv. - snd kv) (compute_votes cs bs))"
    unfolding compute_votes_sort by (rule sorted_sort_key)
  then show ?thesis by (simp add: sorted_map)
qed

lemma dict_of_distinct:
  assumes "distinct (map fst kvs)"
  shows "dict_of kvs = map_of kvs"
proof -
  have "distinct (map fst kvs) \<Longrightarrow>
        foldl (\<lambda>d kv. d(fst kv \<mapsto> snd kv)) m kvs k =
          (case map_of kvs k of Some v \<Rightarrow> Some v | None \<Rightarrow> m k)" for m k
  proof (induction kvs arbitrary: m)
    case Nil
    then show ?case by simp
  next
    case (Cons kv kvs)
    then show ?case
      by (cases kv) (auto split: option.splits simp: map_of_eq_None_iff image_iff dest: map_of_SomeD)
  qed
  from this[OF assms, of Map.empty] show ?thesis
    by (auto simp: dict_of_def fun_eq_iff split: option.splits)
qed

lemma dict_of_compute_votes:
  "dict_of (compute_votes cs bs) c =
     (if c \<in> set cs then Some (first_place_weight c bs) else None)"
  by (simp add: dict_of_distinct compute_votes_distinct compute_votes_map_of)

lemma not_first_is_tie:
  assumes "ranking b = [] \<or> card (hd (ranking b)) \<noteq> 1"
  shows "\<not> first_is x b"
proof
  assume "first_is x b"
  then have "ranking b \<noteq> []" and "hd (ranking b) = {x}"
    by (simp_all add: first_is_def)
  then have "card (hd (ranking b)) = 1" by simp
  with assms \<open>ranking b \<noteq> []\<close> show False by simp
qed

lemma compute_votes_tie:
  assumes "ranking b = [] \<or> card (hd (ranking b)) \<noteq> 1"
  shows "compute_votes cs (b # bs) = compute_votes cs bs"
proof -
  have "first_place_weight x (b # bs) = first_place_weight x bs" for x
    using not_first_is_tie[OF assms, of x] by (simp add: first_place_weight_sum)
  then show ?thesis by (simp add: compute_votes_def)
qed

text \<open>
  Claim C10.  The candidates of the result of \<^verbatim>\<open>compute_votes\<close> are the candidates it
  was given, each once.  The votes of a candidate \<open>c\<close> are the sum of the weights of
  exactly the ballots whose ranking is not empty and whose first tie group is the
  singleton \<open>{c}\<close>.  A ballot with an empty ranking, or with a first tie group that is
  not a singleton (two or more candidates, say), changes nobody's votes: the result is
  the same with and without it.
\<close>

theorem compute_votes_credit:
  "fst ` set (compute_votes cs bs) = set cs \<and>
   distinct (map fst (compute_votes cs bs)) \<and>
   map_of (compute_votes cs bs) c =
     (if c \<in> set cs
      then Some (sum_list (map weight
                  (filter (\<lambda>b. ranking b \<noteq> [] \<and> hd (ranking b) = {c}) bs)))
      else None) \<and>
   (ranking b = [] \<or> card (hd (ranking b)) \<noteq> 1 \<longrightarrow>
      compute_votes cs (b # bs) = compute_votes cs bs)"
proof (intro conjI impI)
  show "fst ` set (compute_votes cs bs) = set cs"
    by (rule compute_votes_keys)
  show "distinct (map fst (compute_votes cs bs))"
    by (rule compute_votes_distinct)
  have "first_place_weight c bs =
        sum_list (map weight (filter (\<lambda>b. ranking b \<noteq> [] \<and> hd (ranking b) = {c}) bs))"
    by (simp add: first_place_weight_sum first_is_def[abs_def])
  then show "map_of (compute_votes cs bs) c =
     (if c \<in> set cs
      then Some (sum_list (map weight
                  (filter (\<lambda>b. ranking b \<noteq> [] \<and> hd (ranking b) = {c}) bs)))
      else None)"
    by (simp add: compute_votes_map_of)
  show "compute_votes cs (b # bs) = compute_votes cs bs"
    if "ranking b = [] \<or> card (hd (ranking b)) \<noteq> 1"
    using that by (rule compute_votes_tie)
qed

text \<open>
  The theorem at work: two ballots naming A first give A the votes 5 and an empty ballot
  none, and a ballot that ties A and B in first place gives neither of them anything.
\<close>

theorem compute_votes_credit_witness:
  "map_of (compute_votes [''A'', ''B'']
      [\<lparr>ranking = [{''A''}, {''B''}], weight = 3\<rparr>, \<lparr>ranking = [{''A''}], weight = 2\<rparr>,
       \<lparr>ranking = [], weight = 7\<rparr>]) ''A'' = Some 5
   \<and> compute_votes [''A'', ''B'']
        [\<lparr>ranking = [{''A'', ''B''}], weight = 4\<rparr>, \<lparr>ranking = [{''B''}], weight = 1\<rparr>]
     = compute_votes [''A'', ''B''] [\<lparr>ranking = [{''B''}], weight = 1\<rparr>]
   \<and> compute_votes [''A'', ''B''] [\<lparr>ranking = [{''B''}], weight = 1\<rparr>] = [(''B'', 1), (''A'', 0)]"
proof -
  have c: "card (hd (ranking \<lparr>ranking = [{''A'', ''B''}], weight = 4\<rparr>)) \<noteq> 1"
    by simp
  have "compute_votes [''A'', ''B''] [\<lparr>ranking = [{''B''}], weight = 1\<rparr>] = [(''B'', 1), (''A'', 0)]"
    by (simp add: compute_votes_def first_place_weight_def first_is_def)
  then show ?thesis
    using c compute_votes_credit[of "[''A'', ''B'']"
        "[\<lparr>ranking = [{''A''}, {''B''}], weight = 3\<rparr>, \<lparr>ranking = [{''A''}], weight = 2\<rparr>,
       \<lparr>ranking = [], weight = 7\<rparr>]" "''A''" "\<lparr>ranking = [{''A'', ''B''}], weight = 4\<rparr>"]
      compute_votes_credit[of "[''A'', ''B'']" "[\<lparr>ranking = [{''B''}], weight = 1\<rparr>]" "''A''"
         "\<lparr>ranking = [{''A'', ''B''}], weight = 4\<rparr>"]
    by simp
qed

subsection \<open>get_round_outcome\<close>

text \<open>
  Claim C8.  \<^verbatim>\<open>get_round_outcome(n)\<close> walks the \<^verbatim>\<open>previous\<close> links: it returns the elected
  and the eliminated candidates of the first record of the chain whose round number is
  \<open>n\<close>, and raises the \<^verbatim>\<open>ValueError\<close> "Round number out of range" when the chain has no
  such record.
\<close>

theorem get_round_outcome_walk:
  "get_round_outcome s n =
     (case find (\<lambda>x. curr_round x = n) (chain s) of
        Some x \<Rightarrow> Inr (elected x, eliminated x)
      | None \<Rightarrow> Inl (ValueError ''Round number out of range''))"
proof (induction s n rule: get_round_outcome.induct)
  case (1 k el elim r prof wv prev roundNum)
  then show ?case by (cases prev) simp_all
qed

text \<open>
  The two scenarios of the tests: round 1 is found behind round 2, and round 4 is out of
  range for a chain that holds round 1 only.
\<close>

theorem get_round_outcome_walk_witness:
  "get_round_outcome
     (ElectionState 2 [''D''] [''E''] 1 \<lparr>ballots = 1\<rparr> None
        (Some (ElectionState 1 [''A'', ''B''] [''C''] 0 \<lparr>ballots = 0\<rparr> None None))) 1
     = Inr ([''A'', ''B''], [''C''])
   \<and> get_round_outcome (ElectionState 1 [''A'', ''B''] [''C''] 0 \<lparr>ballots = 0\<rparr> None None) 4
     = Inl (ValueError ''Round number out of range'')"
  using get_round_outcome_walk[of "ElectionState 2 [''D''] [''E''] 1 \<lparr>ballots = 1\<rparr> None
        (Some (ElectionState 1 [''A'', ''B''] [''C''] 0 \<lparr>ballots = 0\<rparr> None None))" 1]
    get_round_outcome_walk[of "ElectionState 1 [''A'', ''B''] [''C''] 0 \<lparr>ballots = 0\<rparr> None None" 4]
  by simp

subsection \<open>remove_cand\<close>

lemma remove_cand_eq:
  "remove_cand c p bh = (length bh, bh @ [map (strip_cand c) (bh ! p)])"
  by (simp add: remove_cand_def new_ballot_list_def strip_cand_def)

text \<open>
  Claim C6 fails on the code.  \<^verbatim>\<open>remove_cand\<close> keeps every tie group that is not equal to
  \<open>{removed_cand}\<close>, so a candidate who shares a tie group stays on the ballot: removing
  A from the ranking \<open>[{A, B}, {C}]\<close> returns the ranking as it was, with A still in its
  first tie group.  Only a candidate alone in a tie group is removed, as A is from
  \<open>[{A}, {C}]\<close>.
\<close>

theorem remove_cand_keeps_tied_candidate:
  "remove_cand ''A'' 0 [[\<lparr>ranking = [{''A'', ''B''}, {''C''}], weight = 1\<rparr>]]
     = (1, [[\<lparr>ranking = [{''A'', ''B''}, {''C''}], weight = 1\<rparr>],
            [\<lparr>ranking = [{''A'', ''B''}, {''C''}], weight = 1\<rparr>]])
   \<and> ''A'' \<in> hd (ranking (hd ([[\<lparr>ranking = [{''A'', ''B''}, {''C''}], weight = 1\<rparr>],
            [\<lparr>ranking = [{''A'', ''B''}, {''C''}], weight = 1\<rparr>]] ! 1)))
   \<and> remove_cand ''A'' 0 [[\<lparr>ranking = [{''A''}, {''C''}], weight = 1\<rparr>]]
     = (1, [[\<lparr>ranking = [{''A''}, {''C''}], weight = 1\<rparr>],
            [\<lparr>ranking = [{''C''}], weight = 1\<rparr>]])"
  by (simp add: remove_cand_def new_ballot_list_def)

subsection \<open>fractional_transfer\<close>

lemma fractional_transfer_eq:
  assumes "votes w = Some v" and "v \<noteq> 0" and "p < length bh"
  shows "fractional_transfer w p votes thr bh =
           Inr (length bh,
                bh[p := map (scale_winner w ((v - of_int thr) / v)) (bh ! p)]
                  @ [map (strip_cand w \<circ> scale_winner w ((v - of_int thr) / v)) (bh ! p)])"
  using assms
  by (simp add: fractional_transfer_def remove_cand_eq scale_winner_def[abs_def] Let_def)

lemma sum_scaled_first:
  "sum_list (map (weight \<circ> snd)
      (filter (first_is w \<circ> fst) (zip bs (map (strip_cand w \<circ> scale_winner w tv) bs))))
   = first_place_weight w bs * tv"
  by (induction bs)
     (simp_all add: first_place_weight_sum strip_cand_def scale_winner_def algebra_simps)

text \<open>
  Claim C4 as stated fails: the weights that are left sum to \<open>votes[winner] - threshold\<close>
  only when \<open>votes[winner]\<close> is the winner's tally on the ballots of the call.  For the
  ballots of the tests, two seats and the threshold 184, \<^verbatim>\<open>run_step\<close> elects A and then B
  with the dictionary of the tally before the round, in which B has 200 votes (at least
  the threshold, and positive).  After the transfer for A, the ballots naming B first
  weigh 66 + 200; the transfer for B multiplies them by \<open>(200 - 184) / 200\<close> and leaves
  them \<open>132/25 + 16 = 532/25\<close>, not \<open>200 - 184 = 16\<close>.
\<close>

theorem fractional_transfer_stale_counterexample:
  "dict_of [(''A'', 250), (''B'', 200), (''C'', 100)] ''B'' = Some 200
   \<and> (of_int 184 :: rat) \<le> 200 \<and> (0 :: rat) < 200
   \<and> fractional_transfer ''A'' 0 (dict_of [(''A'', 250), (''B'', 200), (''C'', 100)]) 184
         [[b1, b2, b3]]
       = Inr (1, [[\<lparr>ranking = [{''A''}, {''B''}, {''C''}], weight = 66\<rparr>, b2, b3],
                  [\<lparr>ranking = [{''B''}, {''C''}], weight = 66\<rparr>,
                   \<lparr>ranking = [{''B''}, {''C''}], weight = 200\<rparr>,
                   \<lparr>ranking = [{''C''}, {''B''}], weight = 100\<rparr>]])
   \<and> fractional_transfer ''B'' 1 (dict_of [(''A'', 250), (''B'', 200), (''C'', 100)]) 184
         [[\<lparr>ranking = [{''A''}, {''B''}, {''C''}], weight = 66\<rparr>, b2, b3],
          [\<lparr>ranking = [{''B''}, {''C''}], weight = 66\<rparr>,
           \<lparr>ranking = [{''B''}, {''C''}], weight = 200\<rparr>,
           \<lparr>ranking = [{''C''}, {''B''}], weight = 100\<rparr>]]
       = Inr (2, [[\<lparr>ranking = [{''A''}, {''B''}, {''C''}], weight = 66\<rparr>, b2, b3],
                  [\<lparr>ranking = [{''B''}, {''C''}], weight = 132 / 25\<rparr>,
                   \<lparr>ranking = [{''B''}, {''C''}], weight = 16\<rparr>,
                   \<lparr>ranking = [{''C''}, {''B''}], weight = 100\<rparr>],
                  [\<lparr>ranking = [{''C''}], weight = 132 / 25\<rparr>,
                   \<lparr>ranking = [{''C''}], weight = 16\<rparr>,
                   \<lparr>ranking = [{''C''}], weight = 100\<rparr>]])
   \<and> sum_list (map (weight \<circ> snd) (filter (first_is ''B'' \<circ> fst)
         (zip [\<lparr>ranking = [{''B''}, {''C''}], weight = 66\<rparr>,
               \<lparr>ranking = [{''B''}, {''C''}], weight = 200\<rparr>,
               \<lparr>ranking = [{''C''}, {''B''}], weight = 100\<rparr>]
              [\<lparr>ranking = [{''C''}], weight = 132 / 25\<rparr>,
               \<lparr>ranking = [{''C''}], weight = 16\<rparr>,
               \<lparr>ranking = [{''C''}], weight = 100\<rparr>]))) = 532 / 25
   \<and> (532 / 25 :: rat) \<noteq> 200 - of_int 184"
  by code_simp

text \<open>
  Claim C4, amended.  When \<^verbatim>\<open>votes[winner]\<close> is a number \<open>v\<close> other than zero (as when it is
  positive and at least the threshold), \<^verbatim>\<open>fractional_transfer\<close> returns a ballot list in
  which exactly the ballots whose first tie group was \<open>{winner}\<close> have their weight
  multiplied by \<open>(v - threshold) / v\<close>, all other weights being the same, in exact
  rational arithmetic.  The new weights of those ballots sum to their weight before the
  call times \<open>(v - threshold) / v\<close>, which is \<open>v - threshold\<close>, with no rounding, whenever
  \<open>v\<close> is the winner's tally on the ballots of the call, as it is for the first winner
  of a round.
\<close>

theorem fractional_transfer_scaling:
  assumes "p < length bh"
    and "votes w = Some v"
    and "v \<noteq> 0"
  shows "\<exists>u bh'. fractional_transfer w p votes thr bh = Inr (u, bh')
          \<and> map weight (bh' ! u)
              = map (\<lambda>b. if first_is w b then weight b * ((v - of_int thr) / v) else weight b)
                    (bh ! p)
          \<and> sum_list (map (weight \<circ> snd)
                (filter (first_is w \<circ> fst) (zip (bh ! p) (bh' ! u))))
              = first_place_weight w (bh ! p) * ((v - of_int thr) / v)
          \<and> (v = first_place_weight w (bh ! p) \<longrightarrow>
                sum_list (map (weight \<circ> snd)
                  (filter (first_is w \<circ> fst) (zip (bh ! p) (bh' ! u))))
                = v - of_int thr)"
proof -
  let ?tv = "(v - of_int thr) / v"
  let ?new = "map (strip_cand w \<circ> scale_winner w ?tv) (bh ! p)"
  let ?bh' = "bh[p := map (scale_winner w ?tv) (bh ! p)] @ [?new]"
  have eq: "fractional_transfer w p votes thr bh = Inr (length bh, ?bh')"
    using assms(2,3,1) by (rule fractional_transfer_eq)
  have new: "?bh' ! length bh = ?new"
    by (simp add: nth_append)
  have w: "map weight ?new
             = map (\<lambda>b. if first_is w b then weight b * ?tv else weight b) (bh ! p)"
    by (simp add: strip_cand_def scale_winner_def)
  have s: "sum_list (map (weight \<circ> snd) (filter (first_is w \<circ> fst) (zip (bh ! p) ?new)))
          = first_place_weight w (bh ! p) * ?tv"
    by (rule sum_scaled_first)
  have t: "sum_list (map (weight \<circ> snd) (filter (first_is w \<circ> fst) (zip (bh ! p) ?new)))
          = v - of_int thr" if "v = first_place_weight w (bh ! p)"
    unfolding s using that assms(3) by simp
  show ?thesis
  proof (intro exI conjI impI)
    show "fractional_transfer w p votes thr bh = Inr (length bh, ?bh')"
      by (rule eq)
    show "map weight (?bh' ! length bh)
            = map (\<lambda>b. if first_is w b then weight b * ?tv else weight b) (bh ! p)"
      unfolding new by (rule w)
    show "sum_list (map (weight \<circ> snd)
            (filter (first_is w \<circ> fst) (zip (bh ! p) (?bh' ! length bh))))
          = first_place_weight w (bh ! p) * ?tv"
      unfolding new by (rule s)
    show "sum_list (map (weight \<circ> snd)
            (filter (first_is w \<circ> fst) (zip (bh ! p) (?bh' ! length bh))))
          = v - of_int thr" if "v = first_place_weight w (bh ! p)"
      unfolding new using that by (rule t)
  qed
qed

text \<open>
  The theorem at work: A has 8 votes on the three ballots of the call and the threshold is
  4, so the two ballots naming A first are halved and keep 4 between them.
\<close>

theorem fractional_transfer_scaling_witness:
  "(\<exists>u bh'. fractional_transfer ''A'' 0 [''A'' \<mapsto> 8, ''B'' \<mapsto> 2] 4
              [[\<lparr>ranking = [{''A''}, {''B''}], weight = 6\<rparr>, \<lparr>ranking = [{''B''}], weight = 2\<rparr>,
                \<lparr>ranking = [{''A''}], weight = 2\<rparr>]] = Inr (u, bh')
      \<and> map weight (bh' ! u)
          = map (\<lambda>b. if first_is ''A'' b then weight b * ((8 - of_int 4) / 8) else weight b)
              ([[\<lparr>ranking = [{''A''}, {''B''}], weight = 6\<rparr>, \<lparr>ranking = [{''B''}], weight = 2\<rparr>,
                \<lparr>ranking = [{''A''}], weight = 2\<rparr>]] ! 0)
      \<and> sum_list (map (weight \<circ> snd) (filter (first_is ''A'' \<circ> fst)
           (zip ([[\<lparr>ranking = [{''A''}, {''B''}], weight = 6\<rparr>, \<lparr>ranking = [{''B''}], weight = 2\<rparr>,
                \<lparr>ranking = [{''A''}], weight = 2\<rparr>]] ! 0) (bh' ! u)))) = 8 - of_int 4)
   \<and> fractional_transfer ''A'' 0 [''A'' \<mapsto> 8, ''B'' \<mapsto> 2] 4
              [[\<lparr>ranking = [{''A''}, {''B''}], weight = 6\<rparr>, \<lparr>ranking = [{''B''}], weight = 2\<rparr>,
                \<lparr>ranking = [{''A''}], weight = 2\<rparr>]]
       = Inr (1, [[\<lparr>ranking = [{''A''}, {''B''}], weight = 3\<rparr>, \<lparr>ranking = [{''B''}], weight = 2\<rparr>,
                   \<lparr>ranking = [{''A''}], weight = 1\<rparr>],
                  [\<lparr>ranking = [{''B''}], weight = 3\<rparr>, \<lparr>ranking = [{''B''}], weight = 2\<rparr>,
                   \<lparr>ranking = [], weight = 1\<rparr>]])"
proof (rule conjI)
  let ?bh = "[[\<lparr>ranking = [{''A''}, {''B''}], weight = 6\<rparr>, \<lparr>ranking = [{''B''}], weight = 2\<rparr>,
                \<lparr>ranking = [{''A''}], weight = 2\<rparr>]]"
  have 1: "(0::nat) < length ?bh" by simp
  have 2: "[''A'' \<mapsto> 8::rat, ''B'' \<mapsto> 2] ''A'' = Some 8" by simp
  have 3: "(8::rat) = first_place_weight ''A'' (?bh ! 0)"
    by (simp add: first_place_weight_def first_is_def)
  have 4: "(8::rat) \<noteq> 0" by simp
  from 1 2 4
  have "\<exists>u bh'. fractional_transfer ''A'' 0 [''A'' \<mapsto> 8, ''B'' \<mapsto> 2] 4 ?bh = Inr (u, bh')
      \<and> map weight (bh' ! u)
          = map (\<lambda>b. if first_is ''A'' b then weight b * ((8 - of_int 4) / 8) else weight b) (?bh ! 0)
      \<and> sum_list (map (weight \<circ> snd) (filter (first_is ''A'' \<circ> fst)
           (zip (?bh ! 0) (bh' ! u))))
          = first_place_weight ''A'' (?bh ! 0) * ((8 - of_int 4) / 8)
      \<and> (8 = first_place_weight ''A'' (?bh ! 0) \<longrightarrow>
            sum_list (map (weight \<circ> snd) (filter (first_is ''A'' \<circ> fst)
              (zip (?bh ! 0) (bh' ! u)))) = 8 - of_int 4)"
    by (rule fractional_transfer_scaling)
  with 3 show "\<exists>u bh'. fractional_transfer ''A'' 0 [''A'' \<mapsto> 8, ''B'' \<mapsto> 2] 4 ?bh = Inr (u, bh')
      \<and> map weight (bh' ! u)
          = map (\<lambda>b. if first_is ''A'' b then weight b * ((8 - of_int 4) / 8) else weight b) (?bh ! 0)
      \<and> sum_list (map (weight \<circ> snd) (filter (first_is ''A'' \<circ> fst)
           (zip (?bh ! 0) (bh' ! u)))) = 8 - of_int 4"
    by blast
  show "fractional_transfer ''A'' 0 [''A'' \<mapsto> 8, ''B'' \<mapsto> 2] 4 ?bh
       = Inr (1, [[\<lparr>ranking = [{''A''}, {''B''}], weight = 3\<rparr>, \<lparr>ranking = [{''B''}], weight = 2\<rparr>,
                   \<lparr>ranking = [{''A''}], weight = 1\<rparr>],
                  [\<lparr>ranking = [{''B''}], weight = 3\<rparr>, \<lparr>ranking = [{''B''}], weight = 2\<rparr>,
                   \<lparr>ranking = [], weight = 1\<rparr>]])"
    by (simp add: fractional_transfer_def remove_cand_def new_ballot_list_def first_is_def)
qed

subsection \<open>The constructor and the branches of run_step\<close>

lemma py_int_floor: "0 \<le> q \<Longrightarrow> py_int (q + 1) = \<lfloor>q\<rfloor> + 1"
  by (simp add: py_int_def)

lemma new_ElectionState_eq:
  "new_ElectionState n el elim rem prof prev h =
     (ElectionState n el elim (length (cand_lists h)) prof None prev,
      h\<lparr>cand_lists := cand_lists h @ [rem]\<rparr>)"
  by (simp add: new_ElectionState_def new_cand_list_def)

lemma advance_eq:
  "advance e el elim rem p h =
     (e\<lparr>election_state :=
          ElectionState (curr_round (election_state e) + 1) el elim (length (cand_lists h))
            \<lparr>ballots = p\<rparr> None (Some (election_state e))\<rparr>,
      h\<lparr>cand_lists := cand_lists h @ [rem]\<rparr>)"
  by (simp add: advance_def new_ElectionState_eq Let_def)

lemma advance_fields:
  "threshold (fst (advance e el elim rem p h)) = threshold e"
  "seats (fst (advance e el elim rem p h)) = seats e"
  "transfer (fst (advance e el elim rem p h)) = transfer e"
  "init_profile (fst (advance e el elim rem p h)) = init_profile e"
  by (simp_all add: advance_eq)

lemma run_step_mass:
  assumes "int (length (cand_lists h ! remaining (election_state e)))
             = seats e - int (length (get_all_winners (election_state e)))"
  shows "run_step d e h =
           Inr (advance e
                  (map fst (compute_votes (cand_lists h ! remaining (election_state e))
                     (ballot_lists h ! ballots (profile (election_state e)))))
                  [] [] (length (ballot_lists h)) (h\<lparr>ballot_lists := ballot_lists h @ [[]]\<rparr>))"
  using assms by (simp add: run_step_def Let_def new_ballot_list_def get_ballots_def)

lemma run_step_empty:
  assumes "int (length (cand_lists h ! remaining (election_state e)))
             \<noteq> seats e - int (length (get_all_winners (election_state e)))"
    and "compute_votes (cand_lists h ! remaining (election_state e))
           (ballot_lists h ! ballots (profile (election_state e))) = []"
  shows "run_step d e h = Inl IndexError"
  using assms by (simp add: run_step_def Let_def get_ballots_def)

lemma run_step_threshold:
  assumes "int (length (cand_lists h ! remaining (election_state e)))
             \<noteq> seats e - int (length (get_all_winners (election_state e)))"
    and "compute_votes (cand_lists h ! remaining (election_state e))
           (ballot_lists h ! ballots (profile (election_state e))) = cv # rest"
    and "of_int (threshold e) \<le> snd cv"
  shows "run_step d e h =
           (case elect_loop (transfer e) (threshold e) (cv # rest) (cv # rest) []
                   (remaining (election_state e)) (ballots (profile (election_state e))) h of
              Inl err \<Rightarrow> Inl err
            | Inr (el, p', h') \<Rightarrow>
                Inr (advance e el [] (cand_lists h' ! remaining (election_state e)) p' h'))"
  using assms by (simp add: run_step_def Let_def get_ballots_def)

lemma run_step_eliminate:
  assumes "int (length (cand_lists h ! remaining (election_state e)))
             \<noteq> seats e - int (length (get_all_winners (election_state e)))"
    and "compute_votes (cand_lists h ! remaining (election_state e))
           (ballot_lists h ! ballots (profile (election_state e))) = cv # rest"
    and "\<not> of_int (threshold e) \<le> snd cv"
    and "next_round e"
  shows "run_step d e h =
           (case random_choice d
                   (map fst (filter (\<lambda>x. snd x = Min (set (map snd (cv # rest)))) (cv # rest))) of
              Inl err \<Rightarrow> Inl err
            | Inr lp_cand \<Rightarrow>
                (case list_remove lp_cand (remaining (election_state e))
                        (h\<lparr>ballot_lists :=
                             snd (remove_cand lp_cand (ballots (profile (election_state e)))
                                    (ballot_lists h))\<rparr>) of
                   Inl err \<Rightarrow> Inl err
                 | Inr h' \<Rightarrow>
                     Inr (advance e [] [lp_cand] (cand_lists h' ! remaining (election_state e))
                            (length (ballot_lists h)) h')))"
  using assms
  by (simp add: run_step_def Let_def get_ballots_def remove_cand_eq del: set_map list.map filter.simps split: sum.splits)

lemma run_step_idle:
  assumes "int (length (cand_lists h ! remaining (election_state e)))
             \<noteq> seats e - int (length (get_all_winners (election_state e)))"
    and "compute_votes (cand_lists h ! remaining (election_state e))
           (ballot_lists h ! ballots (profile (election_state e))) = cv # rest"
    and "\<not> of_int (threshold e) \<le> snd cv"
    and "\<not> next_round e"
  shows "run_step d e h =
           Inr (advance e [] [] (cand_lists h ! remaining (election_state e))
                  (ballots (profile (election_state e))) h)"
  using assms by (simp add: run_step_def Let_def get_ballots_def)

subsection \<open>The threshold\<close>

lemma run_step_advance:
  assumes "run_step d e h = Inr (e', h')"
  shows "\<exists>el elim rem p h0. advance e el elim rem p h0 = (e', h')"
proof (cases "int (length (cand_lists h ! remaining (election_state e)))
             = seats e - int (length (get_all_winners (election_state e)))")
  case True
  from assms show ?thesis unfolding run_step_mass[OF True] by (metis sum.inject(2))
next
  case False
  show ?thesis
  proof (cases "compute_votes (cand_lists h ! remaining (election_state e))
           (ballot_lists h ! ballots (profile (election_state e)))")
    case Nil
    with assms False show ?thesis by (simp add: run_step_empty)
  next
    case (Cons cv rest)
    show ?thesis
    proof (cases "of_int (threshold e) \<le> snd cv")
      case True
      from assms obtain el p' h1
        where "advance e el [] (cand_lists h1 ! remaining (election_state e)) p' h1 = (e', h')"
        unfolding run_step_threshold[OF False Cons True]
        by (auto split: sum.splits prod.splits simp del: elect_loop.simps)
      then show ?thesis by blast
    next
      case nt: False
      show ?thesis
      proof (cases "next_round e")
        case True
        from assms obtain c h1
          where "advance e [] [c] (cand_lists h1 ! remaining (election_state e))
                   (length (ballot_lists h)) h1 = (e', h')"
          unfolding run_step_eliminate[OF False Cons nt True]
          by (auto split: sum.splits prod.splits)
        then show ?thesis by blast
      next
        case nn: False
        from assms show ?thesis unfolding run_step_idle[OF False Cons nt nn]
          by (metis sum.inject(2))
      qed
    qed
  qed
qed

lemma run_step_fields:
  assumes "run_step d e h = Inr (e', h')"
  shows "threshold e' = threshold e \<and> seats e' = seats e \<and> transfer e' = transfer e
         \<and> init_profile e' = init_profile e"
proof -
  from run_step_advance[OF assms] obtain el elim rem p h0
    where "advance e el elim rem p h0 = (e', h')" by blast
  then have "e' = fst (advance e el elim rem p h0)"
    by (metis fst_conv)
  then show ?thesis by (simp add: advance_fields)
qed

lemma run_steps_fields:
  "run_steps ds e h = Inr (e', h') \<Longrightarrow>
     threshold e' = threshold e \<and> seats e' = seats e \<and> transfer e' = transfer e
     \<and> init_profile e' = init_profile e"
proof (induction ds arbitrary: e h)
  case Nil
  then show ?case by simp
next
  case (Cons d ds)
  then show ?case
    by (auto split: sum.splits dest!: run_step_fields)
qed

text \<open>
  Claim C3.  For a profile whose ballot weights are not negative and a seat count that is
  not negative, the constructor succeeds and sets the threshold to
  \<open>floor(total weight / (seats + 1)) + 1\<close>, computed from the ballots of the initial
  profile; no later round changes it.
\<close>

theorem threshold_droop:
  assumes "\<forall>b \<in> set (ballot_lists h ! ballots prof). 0 \<le> weight b" and "0 \<le> s"
  shows "\<exists>e h'. STV_init cands prof tr s h = Inr (e, h')
           \<and> threshold e
               = \<lfloor>sum_list (map weight (ballot_lists h ! ballots prof)) / of_int (s + 1)\<rfloor> + 1
           \<and> (\<forall>ds e1 h1. run_steps ds e h' = Inr (e1, h1) \<longrightarrow> threshold e1 = threshold e)"
proof -
  let ?W = "sum_list (map weight (ballot_lists h ! ballots prof))"
  have "0 \<le> ?W"
    by (rule sum_list_nonneg) (use assms(1) in auto)
  then have q: "0 \<le> ?W / of_int (s + 1)"
    using assms(2) by simp
  have s: "s + 1 \<noteq> 0"
    using assms(2) by simp
  obtain e h' where i: "STV_init cands prof tr s h = Inr (e, h')"
    and t: "threshold e = py_int (?W / of_int (s + 1) + 1)"
    using s by (simp add: STV_init_def new_ElectionState_eq get_threshold_def num_ballots_def)
  have "threshold e = \<lfloor>?W / of_int (s + 1)\<rfloor> + 1"
    unfolding t using q by (rule py_int_floor)
  moreover have "\<forall>ds e1 h1. run_steps ds e h' = Inr (e1, h1) \<longrightarrow> threshold e1 = threshold e"
    using run_steps_fields by blast
  ultimately show ?thesis using i by blast
qed

lemma store_0_nonneg: "\<forall>b \<in> set (ballot_lists store_0 ! ballots pref_0). 0 \<le> weight b"
  by (simp add: store_0_def pref_0_def b1_def b2_def b3_def)

text \<open>
  The theorem at work on the ballots of the tests with one seat: the total weight is 550,
  the threshold is \<open>floor(550 / 2) + 1 = 276\<close>, and it is still 276 after two rounds.
\<close>

theorem threshold_droop_witness:
  "(\<exists>e h'. STV_init [''A'', ''B'', ''C''] pref_0 fractional_transfer 1 store_0 = Inr (e, h')
           \<and> threshold e
               = \<lfloor>sum_list (map weight (ballot_lists store_0 ! ballots pref_0)) / of_int (1 + 1)\<rfloor> + 1
           \<and> (\<forall>ds e1 h1. run_steps ds e h' = Inr (e1, h1) \<longrightarrow> threshold e1 = threshold e))
   \<and> (case STV_init [''A'', ''B'', ''C''] pref_0 fractional_transfer 1 store_0 of
         Inl err \<Rightarrow> False
       | Inr (e, h') \<Rightarrow>
           threshold e = 276 \<and>
           (case run_steps [0, 0] e h' of
              Inl err \<Rightarrow> False
            | Inr (e1, h1) \<Rightarrow> threshold e1 = 276 \<and> curr_round (election_state e1) = 2))"
proof (rule conjI)
  have s: "(0::int) \<le> 1" by simp
  from store_0_nonneg s
  show "\<exists>e h'. STV_init [''A'', ''B'', ''C''] pref_0 fractional_transfer 1 store_0 = Inr (e, h')
           \<and> threshold e
               = \<lfloor>sum_list (map weight (ballot_lists store_0 ! ballots pref_0)) / of_int (1 + 1)\<rfloor> + 1
           \<and> (\<forall>ds e1 h1. run_steps ds e h' = Inr (e1, h1) \<longrightarrow> threshold e1 = threshold e)"
    by (rule threshold_droop)
  show "case STV_init [''A'', ''B'', ''C''] pref_0 fractional_transfer 1 store_0 of
         Inl err \<Rightarrow> False
       | Inr (e, h') \<Rightarrow>
           threshold e = 276 \<and>
           (case run_steps [0, 0] e h' of
              Inl err \<Rightarrow> False
            | Inr (e1, h1) \<Rightarrow> threshold e1 = 276 \<and> curr_round (election_state e1) = 2)"
    by code_simp
qed

subsection \<open>The first branch of run_step\<close>

text \<open>
  Claim C5.  When the number of remaining candidates equals the number of seats minus the
  number of candidates elected in the rounds before, \<^verbatim>\<open>run_step\<close> returns a new record
  that elects exactly the remaining candidates, each once (so as many as there are seats
  left), eliminates nobody, and has an empty list of remaining candidates and a profile
  with an empty ballot list; its \<^verbatim>\<open>previous\<close> is the record that was current.
\<close>

theorem mass_elect:
  assumes "int (length (cand_lists h ! remaining (election_state e)))
             = seats e - int (length (get_all_winners (election_state e)))"
  shows "\<exists>e' h'. run_step d e h = Inr (e', h')
           \<and> set (elected (election_state e')) = set (cand_lists h ! remaining (election_state e))
           \<and> distinct (elected (election_state e'))
           \<and> (distinct (cand_lists h ! remaining (election_state e)) \<longrightarrow>
                int (length (elected (election_state e')))
                  = seats e - int (length (get_all_winners (election_state e))))
           \<and> eliminated (election_state e') = []
           \<and> cand_lists h' ! remaining (election_state e') = []
           \<and> ballot_lists h' ! ballots (profile (election_state e')) = []
           \<and> previous (election_state e') = Some (election_state e)"
proof -
  let ?rem = "cand_lists h ! remaining (election_state e)"
  let ?fp = "compute_votes ?rem (ballot_lists h ! ballots (profile (election_state e)))"
  let ?h1 = "h\<lparr>ballot_lists := ballot_lists h @ [[]]\<rparr>"
  obtain e' h' where adv: "advance e (map fst ?fp) [] [] (length (ballot_lists h)) ?h1 = (e', h')"
    by (cases "advance e (map fst ?fp) [] [] (length (ballot_lists h)) ?h1") blast
  have run: "run_step d e h = Inr (e', h')"
    using run_step_mass[OF assms] adv by simp
  from adv have st: "election_state e' =
      ElectionState (curr_round (election_state e) + 1) (map fst ?fp) [] (length (cand_lists h))
        \<lparr>ballots = length (ballot_lists h)\<rparr> None (Some (election_state e))"
    and h': "h' = ?h1\<lparr>cand_lists := cand_lists h @ [[]]\<rparr>"
    by (auto simp: advance_eq)
  have 1: "set (elected (election_state e')) = set ?rem"
    using compute_votes_keys[of ?rem] by (simp add: st)
  have 2: "distinct (elected (election_state e'))"
    by (simp add: st compute_votes_distinct)
  have 3: "int (length (elected (election_state e')))
             = seats e - int (length (get_all_winners (election_state e)))" if "distinct ?rem"
    using that assms by (simp add: st compute_votes_length)
  have 4: "eliminated (election_state e') = []"
    and 5: "cand_lists h' ! remaining (election_state e') = []"
    and 6: "ballot_lists h' ! ballots (profile (election_state e')) = []"
    and 7: "previous (election_state e') = Some (election_state e)"
    by (simp_all add: st h')
  from run 1 2 3 4 5 6 7 show ?thesis by blast
qed

lemma STV_init_fixture:
  "STV_init [''A'', ''B'', ''C''] pref_0 fractional_transfer 1 store_0 = Inr (stv_1 1 276, store_1)"
  by (simp add: STV_init_def new_ElectionState_def new_cand_list_def get_threshold_def
      num_ballots_def compute_votes_def first_place_weight_def first_is_def get_ballots_def
      py_int_def stv_1_def store_1_def store_0_def pref_0_def round_0_def b1_def b2_def b3_def)

lemma STV_init_fixtures:
  "STV_init [''A'', ''B'', ''C''] pref_0 fractional_transfer 2 store_0 = Inr (stv_1 2 184, store_1)"
  "STV_init [''A'', ''B'', ''C''] pref_0 fractional_transfer 3 store_0 = Inr (stv_1 3 138, store_1)"
proof -
  have f: "\<lfloor>553 / 3 :: rat\<rfloor> = 184" "\<lfloor>277 / 2 :: rat\<rfloor> = 138"
    by (rule floor_unique; simp)+
  show "STV_init [''A'', ''B'', ''C''] pref_0 fractional_transfer 2 store_0
          = Inr (stv_1 2 184, store_1)"
    and "STV_init [''A'', ''B'', ''C''] pref_0 fractional_transfer 3 store_0
          = Inr (stv_1 3 138, store_1)"
    by (simp_all add: STV_init_def new_ElectionState_def new_cand_list_def get_threshold_def
        num_ballots_def compute_votes_def first_place_weight_def first_is_def get_ballots_def
        py_int_def stv_1_def store_1_def store_0_def pref_0_def round_0_def b1_def b2_def b3_def f)
qed

text \<open>
  The theorem at work: with three seats the three candidates of the tests are all elected
  in the first round, and the new record has no remaining candidates and no ballots.
\<close>

theorem mass_elect_witness:
  "(\<exists>e' h'. run_step 0 (stv_1 3 138) store_1 = Inr (e', h')
           \<and> set (elected (election_state e'))
               = set (cand_lists store_1 ! remaining (election_state (stv_1 3 138)))
           \<and> distinct (elected (election_state e'))
           \<and> (distinct (cand_lists store_1 ! remaining (election_state (stv_1 3 138))) \<longrightarrow>
                int (length (elected (election_state e')))
                  = seats (stv_1 3 138)
                    - int (length (get_all_winners (election_state (stv_1 3 138)))))
           \<and> eliminated (election_state e') = []
           \<and> cand_lists h' ! remaining (election_state e') = []
           \<and> ballot_lists h' ! ballots (profile (election_state e')) = []
           \<and> previous (election_state e') = Some (election_state (stv_1 3 138)))
   \<and> (case run_step 0 (stv_1 3 138) store_1 of
         Inl err \<Rightarrow> False
       | Inr (e', h') \<Rightarrow>
           election_state e'
             = ElectionState 1 [''A'', ''B'', ''C''] [] 1 \<lparr>ballots = 1\<rparr> None (Some round_0)
           \<and> h' = \<lparr>cand_lists = [[''A'', ''B'', ''C''], []], ballot_lists = [[b1, b2, b3], []]\<rparr>)"
proof (rule conjI)
  have c: "int (length (cand_lists store_1 ! remaining (election_state (stv_1 3 138))))
             = seats (stv_1 3 138) - int (length (get_all_winners (election_state (stv_1 3 138))))"
    by (simp add: stv_1_def store_1_def round_0_def)
  from c show "\<exists>e' h'. run_step 0 (stv_1 3 138) store_1 = Inr (e', h')
           \<and> set (elected (election_state e'))
               = set (cand_lists store_1 ! remaining (election_state (stv_1 3 138)))
           \<and> distinct (elected (election_state e'))
           \<and> (distinct (cand_lists store_1 ! remaining (election_state (stv_1 3 138))) \<longrightarrow>
                int (length (elected (election_state e')))
                  = seats (stv_1 3 138)
                    - int (length (get_all_winners (election_state (stv_1 3 138)))))
           \<and> eliminated (election_state e') = []
           \<and> cand_lists h' ! remaining (election_state e') = []
           \<and> ballot_lists h' ! ballots (profile (election_state e')) = []
           \<and> previous (election_state e') = Some (election_state (stv_1 3 138))"
    by (rule mass_elect)
  show "case run_step 0 (stv_1 3 138) store_1 of
         Inl err \<Rightarrow> False
       | Inr (e', h') \<Rightarrow>
           election_state e'
             = ElectionState 1 [''A'', ''B'', ''C''] [] 1 \<lparr>ballots = 1\<rparr> None (Some round_0)
           \<and> h' = \<lparr>cand_lists = [[''A'', ''B'', ''C''], []], ballot_lists = [[b1, b2, b3], []]\<rparr>"
    by code_simp
qed

subsection \<open>The second branch of run_step\<close>

lemma fold_remove1_filter:
  "distinct xs \<Longrightarrow> fold remove1 ws xs = filter (\<lambda>x. x \<notin> set ws) xs"
proof (induction ws arbitrary: xs)
  case Nil
  then show ?case by simp
next
  case (Cons w ws)
  have "remove1 w xs = filter (\<lambda>x. x \<noteq> w) xs"
    using Cons.prems by (simp add: distinct_remove1_removeAll removeAll_filter_not_eq) metis
  then show ?case
    using Cons by (auto intro: filter_cong)
qed

lemma list_remove_mem:
  assumes "x \<in> set (cand_lists h ! r)"
  shows "list_remove x r h = Inr (h\<lparr>cand_lists := (cand_lists h)[r := remove1 x (cand_lists h ! r)]\<rparr>)"
  using assms by (simp add: list_remove_def)

lemma elect_loop_transfer_all:
  assumes "r < length (cand_lists h)"
    and "distinct (map fst rest)"
    and "fst ` set rest \<subseteq> set (cand_lists h ! r)"
  shows "elect_loop tr thr fp rest el r p h =
          (case transfer_all tr thr (dict_of fp)
                  (map fst (filter (\<lambda>cv. of_int thr \<le> snd cv) rest)) p (ballot_lists h) of
             Inl err \<Rightarrow> Inl err
           | Inr (p', bh') \<Rightarrow>
               Inr (el @ map fst (filter (\<lambda>cv. of_int thr \<le> snd cv) rest), p',
                    h\<lparr>cand_lists := (cand_lists h)
                         [r := fold remove1 (map fst (filter (\<lambda>cv. of_int thr \<le> snd cv) rest))
                                 (cand_lists h ! r)],
                      ballot_lists := bh'\<rparr>))"
  using assms
proof (induction rest arbitrary: el p h)
  case Nil
  then show ?case by simp
next
  case (Cons cv rest)
  show ?case
  proof (cases "of_int thr \<le> snd cv")
    case False
    have f: "filter (\<lambda>cv. of_int thr \<le> snd cv) (cv # rest)
               = filter (\<lambda>cv. of_int thr \<le> snd cv) rest"
      using False by simp
    have step: "elect_loop tr thr fp (cv # rest) el r p h = elect_loop tr thr fp rest el r p h"
      using False by simp
    show ?thesis
      unfolding f step by (rule Cons.IH) (use Cons.prems in auto)
  next
    case True
    let ?h1 = "h\<lparr>cand_lists := (cand_lists h)[r := remove1 (fst cv) (cand_lists h ! r)]\<rparr>"
    have rm: "list_remove (fst cv) r h = Inr ?h1"
      using Cons.prems(3) by (simp add: list_remove_mem)
    show ?thesis
    proof (cases "tr (fst cv) p (dict_of fp) thr (ballot_lists h)")
      case (Inl err)
      with True rm show ?thesis by simp
    next
      case (Inr res)
      obtain p' bh' where res: "res = (p', bh')" by (cases res)
      let ?h2 = "?h1\<lparr>ballot_lists := bh'\<rparr>"
      have a: "r < length (cand_lists ?h2)"
        using Cons.prems(1) by simp
      have b: "distinct (map fst rest)"
        using Cons.prems(2) by simp
      have nin: "fst cv \<notin> fst ` set rest"
        using Cons.prems(2) by simp
      have "x \<in> set (remove1 (fst cv) (cand_lists h ! r))" if x: "x \<in> fst ` set rest" for x
      proof -
        from x nin have "x \<noteq> fst cv" by blast
        moreover from x Cons.prems(3) have "x \<in> set (cand_lists h ! r)" by auto
        ultimately show ?thesis by simp
      qed
      then have c: "fst ` set rest \<subseteq> set (cand_lists ?h2 ! r)"
        using Cons.prems(1) by auto
      have step: "elect_loop tr thr fp (cv # rest) el r p h
                    = elect_loop tr thr fp rest (el @ [fst cv]) r p' ?h2"
        using True rm Inr res by simp
      show ?thesis
        unfolding step Cons.IH[OF a b c]
        using True Inr res Cons.prems(1)
        by (simp split: sum.splits)
    qed
  qed
qed

lemma winners_set:
  "set (map fst (filter (\<lambda>cv. t \<le> snd cv) (compute_votes cs bs)))
     = {c \<in> set cs. t \<le> first_place_weight c bs}"
  by (auto simp: compute_votes_mem image_iff) 

lemma winners_sorted:
  "sorted_wrt (\<lambda>a b. first_place_weight b bs \<le> first_place_weight a bs)
     (map fst (filter (\<lambda>cv. t \<le> snd cv) (compute_votes cs bs)))"
proof -
  have "sorted_wrt (\<lambda>x y. snd y \<le> snd x) (filter (\<lambda>cv. t \<le> snd cv) (compute_votes cs bs))"
    using compute_votes_sorted by (rule sorted_wrt_filter)
  then have "sorted_wrt (\<lambda>x y. first_place_weight (fst y) bs \<le> first_place_weight (fst x) bs)
               (filter (\<lambda>cv. t \<le> snd cv) (compute_votes cs bs))"
    by (rule sorted_wrt_mono_rel[rotated]) (auto simp: compute_votes_mem)
  then show ?thesis by (simp add: sorted_wrt_map)
qed

lemma run_step_threshold_all:
  assumes valid: "remaining (election_state e) < length (cand_lists h)"
    and nomass: "int (length (cand_lists h ! remaining (election_state e)))
                   \<noteq> seats e - int (length (get_all_winners (election_state e)))"
    and fp: "fp = compute_votes (cand_lists h ! remaining (election_state e))
                    (ballot_lists h ! ballots (profile (election_state e)))"
    and lead: "fp \<noteq> [] \<and> of_int (threshold e) \<le> snd (hd fp)"
    and ws: "ws = map fst (filter (\<lambda>cv. of_int (threshold e) \<le> snd cv) fp)"
    and rem': "rem' = fold remove1 ws (cand_lists h ! remaining (election_state e))"
  shows "run_step d e h =
           (case transfer_all (transfer e) (threshold e) (dict_of fp) ws
                   (ballots (profile (election_state e))) (ballot_lists h) of
              Inl err \<Rightarrow> Inl err
            | Inr (p', bh') \<Rightarrow>
                Inr (e\<lparr>election_state :=
                         ElectionState (curr_round (election_state e) + 1) ws []
                           (length (cand_lists h)) \<lparr>ballots = p'\<rparr> None
                           (Some (election_state e))\<rparr>,
                     \<lparr>cand_lists = (cand_lists h)[remaining (election_state e) := rem'] @ [rem'],
                      ballot_lists = bh'\<rparr>))"
proof -
  let ?r = "remaining (election_state e)"
  let ?rem = "cand_lists h ! ?r"
  from lead obtain cv rest where fpc: "fp = cv # rest" and t: "of_int (threshold e) \<le> snd cv"
    by (cases fp) auto
  have d: "distinct (map fst fp)"
    unfolding fp by (rule compute_votes_distinct)
  have k: "fst ` set fp \<subseteq> set ?rem"
    unfolding fp by (simp add: compute_votes_keys)
  have "run_step d e h =
          (case elect_loop (transfer e) (threshold e) fp fp [] ?r
                  (ballots (profile (election_state e))) h of
             Inl err \<Rightarrow> Inl err
           | Inr (el, p', h') \<Rightarrow> Inr (advance e el [] (cand_lists h' ! ?r) p' h'))"
    using run_step_threshold[OF nomass fpc[unfolded fp] t] by (simp only: fpc fp)
  also have "\<dots> =
          (case transfer_all (transfer e) (threshold e) (dict_of fp) ws
                  (ballots (profile (election_state e))) (ballot_lists h) of
             Inl err \<Rightarrow> Inl err
           | Inr (p', bh') \<Rightarrow>
               Inr (e\<lparr>election_state :=
                        ElectionState (curr_round (election_state e) + 1) ws []
                          (length (cand_lists h)) \<lparr>ballots = p'\<rparr> None
                          (Some (election_state e))\<rparr>,
                    \<lparr>cand_lists = (cand_lists h)[?r := rem'] @ [rem'], ballot_lists = bh'\<rparr>))"
    unfolding elect_loop_transfer_all[OF valid d k] ws[symmetric] rem'[symmetric]
    using valid by (simp add: advance_eq split: sum.splits)
  finally show ?thesis .
qed

lemma lowest_nonempty:
  assumes "xs \<noteq> []"
  shows "filter (\<lambda>x. snd x = Min (set (map snd xs))) xs \<noteq> []"
proof -
  have "Min (snd ` set xs) \<in> snd ` set xs"
    by (rule Min_in) (use assms in auto)
  then obtain x where "x \<in> set xs" and "Min (snd ` set xs) = snd x"
    by blast
  then show ?thesis
    by (auto simp: filter_empty_conv)
qed

lemma random_choice_mem:
  assumes "xs \<noteq> []"
  shows "\<exists>x. random_choice d xs = Inr x \<and> x \<in> set xs"
  using assms by (simp add: random_choice_def)

lemma run_step_eliminate_one:
  assumes valid: "remaining (election_state e) < length (cand_lists h)"
    and nomass: "int (length (cand_lists h ! remaining (election_state e)))
                   \<noteq> seats e - int (length (get_all_winners (election_state e)))"
    and fp: "compute_votes (cand_lists h ! remaining (election_state e))
               (ballot_lists h ! ballots (profile (election_state e))) = cv # rest"
    and low: "\<not> of_int (threshold e) \<le> snd cv"
    and nr: "next_round e"
  shows "\<exists>c. c \<in> set (cand_lists h ! remaining (election_state e)) \<and>
           run_step d e h =
             Inr (e\<lparr>election_state :=
                      ElectionState (curr_round (election_state e) + 1) [] [c]
                        (length (cand_lists h)) \<lparr>ballots = length (ballot_lists h)\<rparr> None
                        (Some (election_state e))\<rparr>,
                  \<lparr>cand_lists = (cand_lists h)
                      [remaining (election_state e) :=
                         remove1 c (cand_lists h ! remaining (election_state e))]
                      @ [remove1 c (cand_lists h ! remaining (election_state e))],
                   ballot_lists = ballot_lists h
                      @ [map (strip_cand c)
                           (ballot_lists h ! ballots (profile (election_state e)))]\<rparr>)"
proof -
  let ?r = "remaining (election_state e)"
  let ?p = "ballots (profile (election_state e))"
  let ?rem = "cand_lists h ! ?r"
  define fpl where "fpl = cv # rest"
  define lp where "lp = map fst (filter (\<lambda>x. snd x = Min (set (map snd fpl))) fpl)"
  have "fpl \<noteq> []"
    by (simp add: fpl_def)
  then have "filter (\<lambda>x. snd x = Min (set (map snd fpl))) fpl \<noteq> []"
    by (rule lowest_nonempty)
  then have "lp \<noteq> []"
    by (simp only: lp_def map_is_Nil_conv not_False_eq_True)
  then obtain c where ch: "random_choice d lp = Inr c" and c: "c \<in> set lp"
    using random_choice_mem by blast
  have "set lp \<subseteq> fst ` set fpl"
    unfolding lp_def by auto
  moreover have "fst ` set fpl = set ?rem"
    unfolding fpl_def fp[symmetric] by (rule compute_votes_keys)
  ultimately have mem: "c \<in> set ?rem"
    using c by blast
  let ?h1 = "h\<lparr>ballot_lists := snd (remove_cand c ?p (ballot_lists h))\<rparr>"
  let ?h2 = "?h1\<lparr>cand_lists := (cand_lists ?h1)[?r := remove1 c (cand_lists ?h1 ! ?r)]\<rparr>"
  have rm: "list_remove c ?r ?h1 = Inr ?h2"
    by (rule list_remove_mem) (use mem in simp)
  have "run_step d e h =
          (case random_choice d lp of
             Inl err \<Rightarrow> Inl err
           | Inr lp_cand \<Rightarrow>
               (case list_remove lp_cand ?r
                       (h\<lparr>ballot_lists := snd (remove_cand lp_cand ?p (ballot_lists h))\<rparr>) of
                  Inl err \<Rightarrow> Inl err
                | Inr h' \<Rightarrow>
                    Inr (advance e [] [lp_cand] (cand_lists h' ! ?r)
                           (length (ballot_lists h)) h')))"
    unfolding lp_def fpl_def by (rule run_step_eliminate[OF nomass fp low nr])
  also have "\<dots> = Inr (advance e [] [c] (cand_lists ?h2 ! ?r) (length (ballot_lists h)) ?h2)"
    by (simp only: ch rm sum.case)
  also have "cand_lists ?h2 ! ?r = remove1 c ?rem"
    using valid by simp
  also have "advance e [] [c] (remove1 c ?rem) (length (ballot_lists h)) ?h2 =
               (e\<lparr>election_state :=
                      ElectionState (curr_round (election_state e) + 1) [] [c]
                        (length (cand_lists h)) \<lparr>ballots = length (ballot_lists h)\<rparr> None
                        (Some (election_state e))\<rparr>,
                  \<lparr>cand_lists = (cand_lists h)[?r := remove1 c ?rem] @ [remove1 c ?rem],
                   ballot_lists = ballot_lists h @ [map (strip_cand c) (ballot_lists h ! ?p)]\<rparr>)"
    by (simp add: advance_eq remove_cand_eq)
  finally show ?thesis
    using mem by blast
qed

subsection \<open>The rankings\<close>

lemma fold_remove1_union:
  "distinct ws \<Longrightarrow> set ws \<subseteq> set xs \<Longrightarrow> mset ws + mset (fold remove1 ws xs) = mset xs"
proof (induction ws arbitrary: xs)
  case Nil
  then show ?case by simp
next
  case (Cons w ws)
  have "set ws \<subseteq> set (remove1 w xs)"
  proof
    fix x assume x: "x \<in> set ws"
    with Cons.prems have "x \<noteq> w" and "x \<in> set xs" by auto
    then show "x \<in> set (remove1 w xs)" by simp
  qed
  with Cons have "mset ws + mset (fold remove1 ws (remove1 w xs)) = mset (remove1 w xs)"
    by simp
  moreover have "w \<in> set xs" using Cons.prems by simp
  ultimately show ?case by simp
qed

lemma winners_distinct:
  "distinct (map fst (filter P (compute_votes cs bs)))"
  using compute_votes_distinct by (rule distinct_map_filter)

lemma get_rankings_new:
  "get_rankings (ElectionState n el elim (length cl) prof wv (Some st))
       \<lparr>cand_lists = cl @ [rem], ballot_lists = bl\<rparr>
     = (get_all_winners st @ el) @ rem @ rev elim @ get_all_eliminated st"
  by (simp add: get_rankings_def)

lemma run_step_rankings:
  assumes valid: "remaining (election_state e) < length (cand_lists h)"
    and dist: "distinct (cand_lists h ! remaining (election_state e))"
    and run: "run_step d e h = Inr (e', h')"
  shows "remaining (election_state e') < length (cand_lists h')
       \<and> mset (get_rankings (election_state e') h') = mset (get_rankings (election_state e) h)"
proof -
  let ?st = "election_state e"
  let ?r = "remaining ?st"
  let ?rem = "cand_lists h ! ?r"
  let ?bs = "ballot_lists h ! ballots (profile ?st)"
  let ?fp = "compute_votes ?rem ?bs"
  have old: "mset (get_rankings ?st h)
               = mset (get_all_winners ?st) + mset ?rem + mset (get_all_eliminated ?st)"
    by (simp add: get_rankings_def)
  have goal: "remaining (election_state e') < length (cand_lists h')
       \<and> mset (get_rankings (election_state e') h') = mset (get_rankings ?st h)"
    if e': "e' = e\<lparr>election_state :=
                  ElectionState n el elim (length cl) prof None (Some ?st)\<rparr>"
      and h': "h' = \<lparr>cand_lists = cl @ [rem'], ballot_lists = bl\<rparr>"
      and m: "mset el + mset rem' + mset elim = mset ?rem"
    for n el elim cl prof rem' bl
  proof -
    have "mset (get_rankings (election_state e') h')
            = mset (get_all_winners ?st) + (mset el + mset rem' + mset elim)
              + mset (get_all_eliminated ?st)"
      unfolding e' h' by (simp add: get_rankings_new)
    then show ?thesis
      unfolding m old by (simp add: e' h')
  qed
  show ?thesis
  proof (cases "int (length ?rem) = seats e - int (length (get_all_winners ?st))")
    case True
    have "run_step d e h =
            Inr (e\<lparr>election_state :=
                      ElectionState (curr_round ?st + 1) (map fst ?fp) [] (length (cand_lists h))
                        \<lparr>ballots = length (ballot_lists h)\<rparr> None (Some ?st)\<rparr>,
                 \<lparr>cand_lists = cand_lists h @ [[]], ballot_lists = ballot_lists h @ [[]]\<rparr>)"
      unfolding run_step_mass[OF True] by (simp add: advance_eq)
    with run have e': "e' = e\<lparr>election_state :=
                      ElectionState (curr_round ?st + 1) (map fst ?fp) [] (length (cand_lists h))
                        \<lparr>ballots = length (ballot_lists h)\<rparr> None (Some ?st)\<rparr>"
      and h': "h' = \<lparr>cand_lists = cand_lists h @ [[]], ballot_lists = ballot_lists h @ [[]]\<rparr>"
      by simp_all
    have "mset (map fst ?fp) + mset [] + mset [] = mset ?rem"
      using compute_votes_perm[OF dist] by simp
    with e' h' show ?thesis by (rule goal)
  next
    case False
    show ?thesis
    proof (cases ?fp)
      case Nil
      with run False show ?thesis by (simp add: run_step_empty)
    next
      case (Cons cv rest)
      show ?thesis
      proof (cases "of_int (threshold e) \<le> snd cv")
        case True
        define ws where "ws = map fst (filter (\<lambda>cv. of_int (threshold e) \<le> snd cv) ?fp)"
        define rem' where "rem' = fold remove1 ws ?rem"
        have lead: "?fp \<noteq> [] \<and> of_int (threshold e) \<le> snd (hd ?fp)"
          using Cons True by simp
        note eq = run_step_threshold_all[OF valid False refl lead ws_def rem'_def, of d]
        from run obtain p' bh' where
          e': "e' = e\<lparr>election_state :=
                      ElectionState (curr_round ?st + 1) ws [] (length (cand_lists h))
                        \<lparr>ballots = p'\<rparr> None (Some ?st)\<rparr>"
          and h': "h' = \<lparr>cand_lists = (cand_lists h)[?r := rem'] @ [rem'], ballot_lists = bh'\<rparr>"
          unfolding eq by (auto split: sum.splits)
        have "distinct ws"
          unfolding ws_def by (rule winners_distinct)
        moreover have "set ws \<subseteq> set ?rem"
          unfolding ws_def using compute_votes_keys[of ?rem ?bs] by auto
        ultimately have "mset ws + mset rem' = mset ?rem"
          unfolding rem'_def by (rule fold_remove1_union)
        then have m: "mset ws + mset rem' + mset [] = mset ?rem" by simp
        have l: "length ((cand_lists h)[?r := rem']) = length (cand_lists h)" by simp
        show ?thesis
          by (rule goal[OF e'[folded l] h' m])
      next
        case low: False
        show ?thesis
        proof (cases "next_round e")
          case True
          from run_step_eliminate_one[OF valid False Cons low True, of d] run
          obtain c where c: "c \<in> set ?rem"
            and e': "e' = e\<lparr>election_state :=
                      ElectionState (curr_round ?st + 1) [] [c] (length (cand_lists h))
                        \<lparr>ballots = length (ballot_lists h)\<rparr> None (Some ?st)\<rparr>"
            and h': "h' = \<lparr>cand_lists = (cand_lists h)[?r := remove1 c ?rem] @ [remove1 c ?rem],
                          ballot_lists = ballot_lists h @ [map (strip_cand c) ?bs]\<rparr>"
            by auto
          have m: "mset [] + mset (remove1 c ?rem) + mset [c] = mset ?rem"
            using c by simp
          have l: "length ((cand_lists h)[?r := remove1 c ?rem]) = length (cand_lists h)" by simp
          show ?thesis
            by (rule goal[OF e'[folded l] h' m])
        next
          case nn: False
          have "run_step d e h =
                  Inr (e\<lparr>election_state :=
                            ElectionState (curr_round ?st + 1) [] [] (length (cand_lists h))
                              \<lparr>ballots = ballots (profile ?st)\<rparr> None (Some ?st)\<rparr>,
                       \<lparr>cand_lists = cand_lists h @ [?rem], ballot_lists = ballot_lists h\<rparr>)"
            unfolding run_step_idle[OF False Cons low nn] by (simp add: advance_eq)
          with run have e': "e' = e\<lparr>election_state :=
                            ElectionState (curr_round ?st + 1) [] [] (length (cand_lists h))
                              \<lparr>ballots = ballots (profile ?st)\<rparr> None (Some ?st)\<rparr>"
            and h': "h' = \<lparr>cand_lists = cand_lists h @ [?rem], ballot_lists = ballot_lists h\<rparr>"
            by simp_all
          have "mset [] + mset ?rem + mset [] = mset ?rem" by simp
          with e' h' show ?thesis by (rule goal)
        qed
      qed
    qed
  qed
qed

lemma case_sum_prodE:
  assumes "case x of Inl err \<Rightarrow> False | Inr (a, b) \<Rightarrow> P a b"
  obtains a b where "x = Inr (a, b)" and "P a b"
proof (cases x)
  case (Inl err)
  with assms show ?thesis by simp
next
  case (Inr ab)
  obtain a b where "ab = (a, b)" by (cases ab)
  with Inr assms that show ?thesis by simp
qed

lemma run_steps_rankings:
  assumes "remaining (election_state e) < length (cand_lists h)"
    and "distinct (get_rankings (election_state e) h)"
    and "run_steps ds e h = Inr (e', h')"
  shows "mset (get_rankings (election_state e') h') = mset (get_rankings (election_state e) h)"
  using assms
proof (induction ds arbitrary: e h)
  case Nil
  then show ?case by simp
next
  case (Cons d ds)
  from Cons.prems(3) obtain e1 h1 where step: "run_step d e h = Inr (e1, h1)"
    and rest: "run_steps ds e1 h1 = Inr (e', h')"
    by (auto split: sum.splits)
  have "distinct (cand_lists h ! remaining (election_state e))"
    using Cons.prems(2) by (simp add: get_rankings_def)
  from run_step_rankings[OF Cons.prems(1) this step]
  have v1: "remaining (election_state e1) < length (cand_lists h1)"
    and m1: "mset (get_rankings (election_state e1) h1) = mset (get_rankings (election_state e) h)"
    by simp_all
  from m1 Cons.prems(2) have "distinct (get_rankings (election_state e1) h1)"
    by (metis mset_eq_imp_distinct_iff)
  from Cons.IH[OF v1 this rest] m1 show ?case by simp
qed

lemma STV_init_state:
  assumes "STV_init cands prof tr s h = Inr (e0, h0)"
  shows "election_state e0 = ElectionState 0 [] [] (length (cand_lists h)) prof None None"
    and "h0 = \<lparr>cand_lists = cand_lists h
                  @ [map fst (compute_votes cands (ballot_lists h ! ballots prof))],
               ballot_lists = ballot_lists h\<rparr>"
    and "seats e0 = s" and "transfer e0 = tr"
  using assms
  by (auto simp: STV_init_def new_ElectionState_eq get_ballots_def split: sum.splits)

text \<open>
  Claim C7.  Let the engine be constructed from a profile whose candidates
  \<^verbatim>\<open>get_candidates()\<close> enumerates as \<open>cands\<close>.  After any number of rounds the rankings of
  the current record, \<^verbatim>\<open>get_all_winners() + remaining + get_all_eliminated()\<close>, are a
  permutation of \<open>cands\<close>: no duplicates, exactly the candidates of the initial profile,
  and the numbers of winners, remaining and eliminated candidates add up to the number of
  initial candidates.
\<close>

theorem rankings_permutation:
  assumes cands: "get_candidates_returns prof h cands"
    and init: "STV_init cands prof tr s h = Inr (e0, h0)"
    and run: "run_steps ds e0 h0 = Inr (e, h1)"
  shows "mset (get_rankings (election_state e) h1) = mset cands
       \<and> distinct (get_rankings (election_state e) h1)
       \<and> set (get_rankings (election_state e) h1) = candidates_of (ballot_lists h ! ballots prof)
       \<and> length (get_all_winners (election_state e))
           + length (cand_lists h1 ! remaining (election_state e))
           + length (get_all_eliminated (election_state e)) = length cands"
proof -
  from cands have d: "distinct cands"
    and s: "set cands = candidates_of (ballot_lists h ! ballots prof)"
    by (simp_all add: get_candidates_returns_def)
  note st = STV_init_state(1,2)[OF init]
  have r0: "get_rankings (election_state e0) h0
              = map fst (compute_votes cands (ballot_lists h ! ballots prof))"
    unfolding st by (simp add: get_rankings_def)
  have m0: "mset (get_rankings (election_state e0) h0) = mset cands"
    unfolding r0 using d by (rule compute_votes_perm)
  then have d0: "distinct (get_rankings (election_state e0) h0)"
    using d by (metis mset_eq_imp_distinct_iff)
  have v0: "remaining (election_state e0) < length (cand_lists h0)"
    unfolding st by simp
  have m: "mset (get_rankings (election_state e) h1) = mset cands"
    using run_steps_rankings[OF v0 d0 run] m0 by simp
  then have 1: "distinct (get_rankings (election_state e) h1)"
    using d by (metis mset_eq_imp_distinct_iff)
  from m have 2: "set (get_rankings (election_state e) h1) = candidates_of (ballot_lists h ! ballots prof)"
    using s by (metis mset_eq_setD)
  from m have "length (get_rankings (election_state e) h1) = length cands"
    by (metis size_mset)
  then have 3: "length (get_all_winners (election_state e))
           + length (cand_lists h1 ! remaining (election_state e))
           + length (get_all_eliminated (election_state e)) = length cands"
    by (simp add: get_rankings_def)
  from m 1 2 3 show ?thesis by blast
qed

lemma get_candidates_fixture: "get_candidates_returns pref_0 store_0 [''A'', ''B'', ''C'']"
  by (auto simp: get_candidates_returns_def candidates_of_def store_0_def pref_0_def
      b1_def b2_def b3_def)

text \<open>
  The theorem at work on the ballots of the tests with one seat: after two rounds (C
  eliminated, then B elected) the rankings are B, A, C.
\<close>

theorem rankings_permutation_witness:
  "\<exists>e h1. run_steps [0, 0] (stv_1 1 276) store_1 = Inr (e, h1)
       \<and> get_rankings (election_state e) h1 = [''B'', ''A'', ''C'']
       \<and> mset (get_rankings (election_state e) h1) = mset [''A'', ''B'', ''C'']
       \<and> distinct (get_rankings (election_state e) h1)
       \<and> set (get_rankings (election_state e) h1)
           = candidates_of (ballot_lists store_0 ! ballots pref_0)
       \<and> length (get_all_winners (election_state e))
           + length (cand_lists h1 ! remaining (election_state e))
           + length (get_all_eliminated (election_state e)) = length [''A'', ''B'', ''C'']"
proof -
  have "case run_steps [0, 0] (stv_1 1 276) store_1 of
          Inl err \<Rightarrow> False
        | Inr (e, h1) \<Rightarrow> get_rankings (election_state e) h1 = [''B'', ''A'', ''C'']"
    by code_simp
  then obtain e h1 where run: "run_steps [0, 0] (stv_1 1 276) store_1 = Inr (e, h1)"
    and r: "get_rankings (election_state e) h1 = [''B'', ''A'', ''C'']"
    by (rule case_sum_prodE)
  from rankings_permutation[OF get_candidates_fixture STV_init_fixture run] run r
  show ?thesis by blast
qed

subsection \<open>The winners of a round\<close>

text \<open>
  Claim C2.  Let the first branch of \<^verbatim>\<open>run_step\<close> not apply, let \<open>fp\<close> be the tally of the
  round and let its leading candidate have at least the threshold.  Then the winners
  \<open>ws\<close> of the round are exactly the remaining candidates whose tally is at least the
  threshold, in descending order of that tally; the transfer strategy is applied for
  them one after the other, each time with the dictionary of the tally \<open>fp\<close> taken
  before the round; and the new record elects \<open>ws\<close>, eliminates nobody and has the
  remaining candidates without the winners (as has, from then on, the list of the record
  before it) and the ballots the last transfer returned.  An exception of the strategy
  ends the call.
\<close>

theorem threshold_elect:
  assumes valid: "remaining (election_state e) < length (cand_lists h)"
    and dist: "distinct (cand_lists h ! remaining (election_state e))"
    and nomass: "int (length (cand_lists h ! remaining (election_state e)))
                   \<noteq> seats e - int (length (get_all_winners (election_state e)))"
    and fp: "fp = compute_votes (cand_lists h ! remaining (election_state e))
                    (ballot_lists h ! ballots (profile (election_state e)))"
    and lead: "fp \<noteq> [] \<and> of_int (threshold e) \<le> snd (hd fp)"
    and ws: "ws = map fst (filter (\<lambda>cv. of_int (threshold e) \<le> snd cv) fp)"
    and rem': "rem' = filter (\<lambda>c. c \<notin> set ws) (cand_lists h ! remaining (election_state e))"
  shows "set ws = {c \<in> set (cand_lists h ! remaining (election_state e)).
                    of_int (threshold e)
                      \<le> first_place_weight c (ballot_lists h ! ballots (profile (election_state e)))}
       \<and> sorted_wrt (\<lambda>a b.
             first_place_weight b (ballot_lists h ! ballots (profile (election_state e)))
               \<le> first_place_weight a (ballot_lists h ! ballots (profile (election_state e)))) ws
       \<and> dict_of fp
           = (\<lambda>c. if c \<in> set (cand_lists h ! remaining (election_state e))
                   then Some (first_place_weight c
                                (ballot_lists h ! ballots (profile (election_state e))))
                   else None)
       \<and> run_step d e h =
           (case transfer_all (transfer e) (threshold e) (dict_of fp) ws
                   (ballots (profile (election_state e))) (ballot_lists h) of
              Inl err \<Rightarrow> Inl err
            | Inr (p', bh') \<Rightarrow>
                Inr (e\<lparr>election_state :=
                         ElectionState (curr_round (election_state e) + 1) ws []
                           (length (cand_lists h)) \<lparr>ballots = p'\<rparr> None
                           (Some (election_state e))\<rparr>,
                     \<lparr>cand_lists = (cand_lists h)[remaining (election_state e) := rem'] @ [rem'],
                      ballot_lists = bh'\<rparr>))"
proof (intro conjI)
  let ?rem = "cand_lists h ! remaining (election_state e)"
  let ?bs = "ballot_lists h ! ballots (profile (election_state e))"
  show "set ws = {c \<in> set ?rem. of_int (threshold e) \<le> first_place_weight c ?bs}"
    unfolding ws fp by (rule winners_set)
  show "sorted_wrt (\<lambda>a b. first_place_weight b ?bs \<le> first_place_weight a ?bs) ws"
    unfolding ws fp by (rule winners_sorted)
  show "dict_of fp = (\<lambda>c. if c \<in> set ?rem then Some (first_place_weight c ?bs) else None)"
    unfolding fp by (rule ext) (rule dict_of_compute_votes)
  have f: "rem' = fold remove1 ws ?rem"
    unfolding rem' using dist by (rule fold_remove1_filter[symmetric])
  show "run_step d e h =
           (case transfer_all (transfer e) (threshold e) (dict_of fp) ws
                   (ballots (profile (election_state e))) (ballot_lists h) of
              Inl err \<Rightarrow> Inl err
            | Inr (p', bh') \<Rightarrow>
                Inr (e\<lparr>election_state :=
                         ElectionState (curr_round (election_state e) + 1) ws []
                           (length (cand_lists h)) \<lparr>ballots = p'\<rparr> None
                           (Some (election_state e))\<rparr>,
                     \<lparr>cand_lists = (cand_lists h)[remaining (election_state e) := rem'] @ [rem'],
                      ballot_lists = bh'\<rparr>))"
    using valid nomass fp lead ws f by (rule run_step_threshold_all)
qed

text \<open>
  The theorem at work on the ballots of the tests with two seats and the threshold 184:
  A (250 votes) and B (200 votes) are elected in this order and C remains.
\<close>

theorem threshold_elect_witness:
  "run_step 0 (stv_1 2 184) store_1 =
     (case transfer_all (transfer (stv_1 2 184)) (threshold (stv_1 2 184))
             (dict_of [(''A'', 250), (''B'', 200), (''C'', 100)]) [''A'', ''B'']
             (ballots (profile (election_state (stv_1 2 184)))) (ballot_lists store_1) of
        Inl err \<Rightarrow> Inl err
      | Inr (p', bh') \<Rightarrow>
          Inr ((stv_1 2 184)\<lparr>election_state :=
                   ElectionState (curr_round (election_state (stv_1 2 184)) + 1) [''A'', ''B''] []
                     (length (cand_lists store_1)) \<lparr>ballots = p'\<rparr> None
                     (Some (election_state (stv_1 2 184)))\<rparr>,
               \<lparr>cand_lists = (cand_lists store_1)[remaining (election_state (stv_1 2 184)) := [''C'']]
                               @ [[''C'']],
                ballot_lists = bh'\<rparr>))
   \<and> (case run_step 0 (stv_1 2 184) store_1 of
         Inl err \<Rightarrow> False
       | Inr (e', h') \<Rightarrow>
           election_state e'
             = ElectionState 1 [''A'', ''B''] [] 1 \<lparr>ballots = 2\<rparr> None (Some round_0)
           \<and> cand_lists h' = [[''C''], [''C'']]
           \<and> ballot_lists h' ! 2
               = [\<lparr>ranking = [{''C''}], weight = 132 / 25\<rparr>,
                  \<lparr>ranking = [{''C''}], weight = 16\<rparr>,
                  \<lparr>ranking = [{''C''}], weight = 100\<rparr>])"
proof (rule conjI)
  let ?e = "stv_1 2 184"
  have 1: "remaining (election_state ?e) < length (cand_lists store_1)"
    by (simp add: stv_1_def round_0_def store_1_def)
  have 2: "distinct (cand_lists store_1 ! remaining (election_state ?e))"
    by (simp add: stv_1_def round_0_def store_1_def)
  have 3: "int (length (cand_lists store_1 ! remaining (election_state ?e)))
             \<noteq> seats ?e - int (length (get_all_winners (election_state ?e)))"
    by (simp add: stv_1_def round_0_def store_1_def)
  have 4: "[(''A'', 250), (''B'', 200), (''C'', 100)]
             = compute_votes (cand_lists store_1 ! remaining (election_state ?e))
                 (ballot_lists store_1 ! ballots (profile (election_state ?e)))"
    by code_simp
  have 5: "[(''A'', 250::rat), (''B'', 200), (''C'', 100)] \<noteq> []
             \<and> of_int (threshold ?e) \<le> snd (hd [(''A'', 250::rat), (''B'', 200), (''C'', 100)])"
    by (simp add: stv_1_def)
  have 6: "[''A'', ''B'']
             = map fst (filter (\<lambda>cv. of_int (threshold ?e) \<le> snd cv)
                 [(''A'', 250::rat), (''B'', 200), (''C'', 100)])"
    by (simp add: stv_1_def)
  have 7: "[''C''] = filter (\<lambda>c. c \<notin> set [''A'', ''B''])
                       (cand_lists store_1 ! remaining (election_state ?e))"
    by (simp add: stv_1_def round_0_def store_1_def)
  from threshold_elect[OF 1 2 3 4 5 6 7, of 0]
  show "run_step 0 ?e store_1 =
     (case transfer_all (transfer ?e) (threshold ?e)
             (dict_of [(''A'', 250), (''B'', 200), (''C'', 100)]) [''A'', ''B'']
             (ballots (profile (election_state ?e))) (ballot_lists store_1) of
        Inl err \<Rightarrow> Inl err
      | Inr (p', bh') \<Rightarrow>
          Inr (?e\<lparr>election_state :=
                   ElectionState (curr_round (election_state ?e) + 1) [''A'', ''B''] []
                     (length (cand_lists store_1)) \<lparr>ballots = p'\<rparr> None
                     (Some (election_state ?e))\<rparr>,
               \<lparr>cand_lists = (cand_lists store_1)[remaining (election_state ?e) := [''C'']]
                               @ [[''C'']],
                ballot_lists = bh'\<rparr>))"
    by (elim conjE)
  show "case run_step 0 ?e store_1 of
         Inl err \<Rightarrow> False
       | Inr (e', h') \<Rightarrow>
           election_state e'
             = ElectionState 1 [''A'', ''B''] [] 1 \<lparr>ballots = 2\<rparr> None (Some round_0)
           \<and> cand_lists h' = [[''C''], [''C'']]
           \<and> ballot_lists h' ! 2
               = [\<lparr>ranking = [{''C''}], weight = 132 / 25\<rparr>,
                  \<lparr>ranking = [{''C''}], weight = 16\<rparr>,
                  \<lparr>ranking = [{''C''}], weight = 100\<rparr>]"
    by code_simp
qed

subsection \<open>The record of the round before\<close>

text \<open>
  Claim C1 fails on the code.  \<^verbatim>\<open>run_step\<close> takes the list \<^verbatim>\<open>remaining\<close> and the ballots from
  the current record and changes them in place before it builds the new record.  For the
  ballots of the tests and two seats, the record of round 0 has the remaining candidates
  A, B, C and the ballot weights 250, 200, 100 when the constructor returns; after one
  call of \<^verbatim>\<open>run_step\<close>, which elects A and B, the same record, now the \<^verbatim>\<open>previous\<close> of
  the current one, has the remaining candidate C and the weights 66, 200, 100.  With one
  seat, C is eliminated and round 0 is left with the remaining candidates A, B.
\<close>

theorem run_step_changes_previous_record:
  "(case STV_init [''A'', ''B'', ''C''] pref_0 fractional_transfer 2 store_0 of
      Inl err \<Rightarrow> False
    | Inr (e, h) \<Rightarrow>
        cand_lists h ! remaining (election_state e) = [''A'', ''B'', ''C'']
        \<and> map weight (ballot_lists h ! ballots (profile (election_state e))) = [250, 200, 100]
        \<and> (case run_step 0 e h of
             Inl err \<Rightarrow> False
           | Inr (e', h') \<Rightarrow>
               previous (election_state e') = Some (election_state e)
               \<and> elected (election_state e') = [''A'', ''B'']
               \<and> cand_lists h' ! remaining (election_state e) = [''C'']
               \<and> map weight (ballot_lists h' ! ballots (profile (election_state e)))
                   = [66, 200, 100]))
   \<and> (case STV_init [''A'', ''B'', ''C''] pref_0 fractional_transfer 1 store_0 of
         Inl err \<Rightarrow> False
       | Inr (e, h) \<Rightarrow>
           cand_lists h ! remaining (election_state e) = [''A'', ''B'', ''C'']
           \<and> (case run_step 0 e h of
                Inl err \<Rightarrow> False
              | Inr (e', h') \<Rightarrow>
                  previous (election_state e') = Some (election_state e)
                  \<and> eliminated (election_state e') = [''C'']
                  \<and> cand_lists h' ! remaining (election_state e) = [''A'', ''B'']))"
  by code_simp

subsection \<open>Ballot weights under a transfer\<close>

lemma weight_transferred:
  "weight (strip_cand w (scale_winner w tv b)) = (if first_is w b then weight b * tv else weight b)"
  by (simp add: strip_cand_def scale_winner_def)

lemma weight_stripped: "weight (strip_cand c b) = weight b"
  by (simp add: strip_cand_def)

lemma first_is_stripped:
  assumes "first_is c b" and "c \<noteq> w"
  shows "first_is c (strip_cand w b)"
proof -
  from assms(1) obtain gs where r: "ranking b = {c} # gs"
    by (cases "ranking b") (auto simp: first_is_def)
  have "{c} \<noteq> {w}" using assms(2) by simp
  then show ?thesis
    by (simp add: first_is_def strip_cand_def r)
qed

lemma first_is_unique: "first_is c b \<Longrightarrow> c \<noteq> w \<Longrightarrow> \<not> first_is w b"
  by (auto simp: first_is_def)

lemma sum_transferred:
  "sum_list (map weight (map (strip_cand w \<circ> scale_winner w tv) bs))
     = sum_list (map weight bs) - first_place_weight w bs * (1 - tv)"
  by (induction bs) (simp_all add: first_place_weight_sum weight_transferred algebra_simps)

lemma nonneg_transferred:
  assumes "\<forall>b \<in> set bs. 0 \<le> weight b" and "0 \<le> tv"
  shows "\<forall>b \<in> set (map (strip_cand w \<circ> scale_winner w tv) bs). 0 \<le> weight b"
  using assms by (auto simp: weight_transferred)

lemma first_place_weight_Cons:
  "first_place_weight c (b # bs)
     = (if first_is c b then weight b else 0) + first_place_weight c bs"
  by (simp add: first_place_weight_sum)

lemma first_place_weight_mono:
  assumes "\<forall>b \<in> set bs. 0 \<le> weight b" and "0 \<le> tv" and "c \<noteq> w"
  shows "first_place_weight c bs
           \<le> first_place_weight c (map (strip_cand w \<circ> scale_winner w tv) bs)"
  using assms(1)
proof (induction bs)
  case Nil
  then show ?case by (simp add: first_place_weight_sum)
next
  case (Cons b bs)
  let ?b' = "strip_cand w (scale_winner w tv b)"
  have ih: "first_place_weight c bs
              \<le> first_place_weight c (map (strip_cand w \<circ> scale_winner w tv) bs)"
    by (rule Cons.IH) (use Cons.prems in simp)
  have w': "0 \<le> weight ?b'"
    using Cons.prems assms(2) by (simp add: weight_transferred)
  have "(if first_is c b then weight b else 0) \<le> (if first_is c ?b' then weight ?b' else 0)"
  proof (cases "first_is c b")
    case True
    then have nw: "\<not> first_is w b" using assms(3) by (rule first_is_unique)
    then have "scale_winner w tv b = b" by (simp add: scale_winner_def)
    moreover have "first_is c (strip_cand w b)" using True assms(3) by (rule first_is_stripped)
    ultimately show ?thesis using True by (simp add: weight_stripped)
  next
    case False
    then show ?thesis using w' by simp
  qed
  with ih show ?case
    unfolding list.map comp_apply first_place_weight_Cons by (rule add_mono[rotated])
qed

lemma transfer_all_fractional:
  assumes "p < length bh"
    and "distinct ws"
    and "\<forall>w \<in> set ws. \<exists>v. votes w = Some v \<and> of_int thr \<le> v
                                \<and> v \<le> first_place_weight w (bh ! p)"
    and "0 < thr"
    and "\<forall>b \<in> set (bh ! p). 0 \<le> weight b"
  shows "\<exists>p' bh'. transfer_all fractional_transfer thr votes ws p bh = Inr (p', bh')
           \<and> p' < length bh'
           \<and> (\<forall>b \<in> set (bh' ! p'). 0 \<le> weight b)
           \<and> sum_list (map weight (bh' ! p')) + of_int (int (length ws) * thr)
               \<le> sum_list (map weight (bh ! p))"
  using assms(1,2,3,5)
proof (induction ws arbitrary: p bh)
  case Nil
  then show ?case by simp
next
  case (Cons w ws)
  let ?bs = "bh ! p"
  from Cons.prems(3) obtain v where v: "votes w = Some v" and tv: "of_int thr \<le> v"
    and vu: "v \<le> first_place_weight w ?bs"
    by auto
  have vpos: "0 < v"
    using tv assms(4) by (meson less_le_trans of_int_0_less_iff)
  define tval where "tval = (v - of_int thr) / v"
  have t0: "0 \<le> tval"
    using tv vpos by (simp add: tval_def)
  define new where "new = map (strip_cand w \<circ> scale_winner w tval) ?bs"
  define bh1 where "bh1 = bh[p := map (scale_winner w tval) ?bs] @ [new]"
  have ft: "fractional_transfer w p votes thr bh = Inr (length bh, bh1)"
    unfolding bh1_def new_def tval_def
    by (rule fractional_transfer_eq) (use v vpos Cons.prems(1) in auto)
  have p1: "length bh < length bh1"
    by (simp add: bh1_def)
  have at: "bh1 ! length bh = new"
    by (simp add: bh1_def nth_append)
  have d: "distinct ws" and wn: "w \<notin> set ws"
    using Cons.prems(2) by simp_all
  have nn: "\<forall>b \<in> set new. 0 \<le> weight b"
    unfolding new_def using Cons.prems(4) t0 by (rule nonneg_transferred)
  have pend: "\<forall>x \<in> set ws. \<exists>u. votes x = Some u \<and> of_int thr \<le> u
                                \<and> u \<le> first_place_weight x (bh1 ! length bh)"
  proof
    fix x assume x: "x \<in> set ws"
    with Cons.prems(3) obtain u where u: "votes x = Some u" "of_int thr \<le> u"
      "u \<le> first_place_weight x ?bs"
      by auto
    from x wn have "x \<noteq> w" by blast
    with Cons.prems(4) t0 have "first_place_weight x ?bs \<le> first_place_weight x new"
      unfolding new_def by (rule first_place_weight_mono)
    with u show "\<exists>u. votes x = Some u \<and> of_int thr \<le> u
                       \<and> u \<le> first_place_weight x (bh1 ! length bh)"
      unfolding at by fastforce
  qed
  from Cons.IH[OF p1 d pend] nn at
  obtain p' bh' where r: "transfer_all fractional_transfer thr votes ws (length bh) bh1 = Inr (p', bh')"
    and p': "p' < length bh'"
    and n': "\<forall>b \<in> set (bh' ! p'). 0 \<le> weight b"
    and s': "sum_list (map weight (bh' ! p')) + of_int (int (length ws) * thr)
               \<le> sum_list (map weight new)"
    by auto
  have run: "transfer_all fractional_transfer thr votes (w # ws) p bh = Inr (p', bh')"
    by (simp add: ft r)
  have "1 - tval = of_int thr / v"
    using vpos by (simp add: tval_def field_simps)
  moreover have "of_int thr \<le> first_place_weight w ?bs * (of_int thr / v)"
  proof -
    have "of_int thr * 1 \<le> of_int thr * (first_place_weight w ?bs / v)"
      using vu vpos assms(4) by (intro mult_left_mono) simp_all
    then show ?thesis by (simp add: mult.commute)
  qed
  ultimately have "sum_list (map weight new) \<le> sum_list (map weight ?bs) - of_int thr"
    unfolding new_def sum_transferred by simp
  with s' have "sum_list (map weight (bh' ! p')) + of_int (int (length (w # ws)) * thr)
               \<le> sum_list (map weight ?bs)"
    by (simp add: algebra_simps)
  with run p' n' show ?case by blast
qed

subsection \<open>Termination\<close>

lemma fold_remove1_length:
  assumes "distinct ws" and "set ws \<subseteq> set xs"
  shows "length ws + length (fold remove1 ws xs) = length xs"
proof -
  have "size (mset ws + mset (fold remove1 ws xs)) = size (mset xs)"
    using assms by (simp only: fold_remove1_union)
  then show ?thesis by simp
qed

lemma run_step_inv:
  assumes inv: "election_inv W0 e h" and nr: "next_round e"
  shows "\<exists>e' h'. run_step d e h = Inr (e', h')
           \<and> length (cand_lists h' ! remaining (election_state e'))
               < length (cand_lists h ! remaining (election_state e))
           \<and> curr_round (election_state e') = curr_round (election_state e) + 1
           \<and> (next_round e' \<longrightarrow> election_inv W0 e' h')"
proof -
  let ?st = "election_state e"
  let ?r = "remaining ?st"
  let ?p = "ballots (profile ?st)"
  let ?rem = "cand_lists h ! ?r"
  let ?bs = "ballot_lists h ! ?p"
  let ?fp = "compute_votes ?rem ?bs"
  let ?k = "int (length (get_all_winners ?st))"
  from inv have valid: "?r < length (cand_lists h)" and pvalid: "?p < length (ballot_lists h)"
    and dist: "distinct ?rem" and nonneg: "\<forall>b \<in> set ?bs. 0 \<le> weight b"
    and tr: "transfer e = fractional_transfer" and tpos: "0 < threshold e"
    and quota: "W0 < of_int ((seats e + 1) * threshold e)"
    and wsum: "sum_list (map weight ?bs) + of_int (?k * threshold e) \<le> W0"
    and ks: "?k \<le> seats e" and left: "seats e - ?k \<le> int (length ?rem)"
    by (simp_all add: election_inv_def)
  from nr have kne: "?k \<noteq> seats e" by (simp add: next_round_def)
  with ks left have rem1: "1 \<le> length ?rem" by linarith
  show ?thesis
  proof (cases "int (length ?rem) = seats e - ?k")
    case True
    let ?e' = "e\<lparr>election_state :=
                   ElectionState (curr_round ?st + 1) (map fst ?fp) [] (length (cand_lists h))
                     \<lparr>ballots = length (ballot_lists h)\<rparr> None (Some ?st)\<rparr>"
    let ?h' = "\<lparr>cand_lists = cand_lists h @ [[]], ballot_lists = ballot_lists h @ [[]]\<rparr>"
    have run: "run_step d e h = Inr (?e', ?h')"
      unfolding run_step_mass[OF True] by (simp add: advance_eq)
    have "length (map fst ?fp) = length ?rem"
      using dist by (simp add: compute_votes_length)
    then have "\<not> next_round ?e'"
      using True by (simp add: next_round_def)
    moreover have "cand_lists ?h' ! remaining (election_state ?e') = []"
      by simp
    then have "length (cand_lists ?h' ! remaining (election_state ?e')) < length ?rem"
      using rem1 by (simp only: list.size)
    moreover have "curr_round (election_state ?e') = curr_round ?st + 1"
      by simp
    ultimately show ?thesis using run by blast
  next
    case False
    have "length ?fp = length ?rem"
      using dist by (rule compute_votes_length)
    with rem1 obtain cv rest where Cons: "?fp = cv # rest"
      by (cases ?fp) auto
    show ?thesis
    proof (cases "of_int (threshold e) \<le> snd cv")
      case True
      define ws where "ws = map fst (filter (\<lambda>cv. of_int (threshold e) \<le> snd cv) ?fp)"
      define rem' where "rem' = fold remove1 ws ?rem"
      have lead: "?fp \<noteq> [] \<and> of_int (threshold e) \<le> snd (hd ?fp)"
        using Cons True by simp
      note eq = run_step_threshold_all[OF valid False refl lead ws_def rem'_def, of d]
      have dws: "distinct ws"
        unfolding ws_def by (rule winners_distinct)
      have wset: "set ws = {c \<in> set ?rem. of_int (threshold e) \<le> first_place_weight c ?bs}"
        unfolding ws_def by (rule winners_set)
      then have sub: "set ws \<subseteq> set ?rem" by blast
      have "fst cv \<in> set ws"
        unfolding ws_def Cons using True by simp
      then have wne: "1 \<le> length ws"
        by (cases ws) auto
      have pend: "\<forall>w \<in> set ws. \<exists>v. dict_of ?fp w = Some v \<and> of_int (threshold e) \<le> v
                                \<and> v \<le> first_place_weight w ?bs"
        using wset by (auto simp: dict_of_compute_votes)
      from transfer_all_fractional[OF pvalid dws pend tpos nonneg]
      obtain p' bh' where
        ta: "transfer_all fractional_transfer (threshold e) (dict_of ?fp) ws ?p (ballot_lists h)
               = Inr (p', bh')"
        and p': "p' < length bh'"
        and n': "\<forall>b \<in> set (bh' ! p'). 0 \<le> weight b"
        and s': "sum_list (map weight (bh' ! p')) + of_int (int (length ws) * threshold e)
                   \<le> sum_list (map weight ?bs)"
        by blast
      let ?e' = "e\<lparr>election_state :=
                     ElectionState (curr_round ?st + 1) ws [] (length (cand_lists h))
                       \<lparr>ballots = p'\<rparr> None (Some ?st)\<rparr>"
      let ?h' = "\<lparr>cand_lists = (cand_lists h)[?r := rem'] @ [rem'], ballot_lists = bh'\<rparr>"
      have run: "run_step d e h = Inr (?e', ?h')"
        unfolding eq tr ta by simp
      have at: "cand_lists ?h' ! remaining (election_state ?e') = rem'"
        by (simp add: nth_append)
      have len: "length ws + length rem' = length ?rem"
        unfolding rem'_def using dws sub by (rule fold_remove1_length)
      have drem': "distinct rem'"
        unfolding rem'_def using dist by (simp add: fold_remove1_filter)
      have k': "int (length (get_all_winners (election_state ?e'))) = ?k + int (length ws)"
        by simp
      have "0 \<le> sum_list (map weight (bh' ! p'))"
        by (rule sum_list_nonneg) (use n' in auto)
      with s' wsum have total: "sum_list (map weight (bh' ! p'))
                + of_int ((?k + int (length ws)) * threshold e) \<le> W0"
        and "of_int ((?k + int (length ws)) * threshold e) \<le> W0"
        by (simp_all add: algebra_simps)
      with quota have "(of_int ((?k + int (length ws)) * threshold e) :: rat)
                         < of_int ((seats e + 1) * threshold e)"
        by linarith
      then have "(?k + int (length ws)) * threshold e < (seats e + 1) * threshold e"
        by (simp only: of_int_less_iff)
      then have "?k + int (length ws) < seats e + 1"
        using tpos by (simp add: mult_less_cancel_right)
      then have ks': "?k + int (length ws) \<le> seats e" by simp
      have left': "seats e - (?k + int (length ws)) \<le> int (length rem')"
        using left len by linarith
      have "election_inv W0 ?e' ?h'"
        unfolding election_inv_def k' at
        using p' drem' n' tr tpos quota total ks' left' by simp
      moreover have "length (cand_lists ?h' ! remaining (election_state ?e')) < length ?rem"
        unfolding at using len wne by linarith
      moreover have "curr_round (election_state ?e') = curr_round ?st + 1"
        by simp
      ultimately show ?thesis using run by blast
    next
      case low: False
      from run_step_eliminate_one[OF valid False Cons low nr, of d]
      obtain c where c: "c \<in> set ?rem"
        and run: "run_step d e h =
             Inr (e\<lparr>election_state :=
                      ElectionState (curr_round ?st + 1) [] [c] (length (cand_lists h))
                        \<lparr>ballots = length (ballot_lists h)\<rparr> None (Some ?st)\<rparr>,
                  \<lparr>cand_lists = (cand_lists h)[?r := remove1 c ?rem] @ [remove1 c ?rem],
                   ballot_lists = ballot_lists h @ [map (strip_cand c) ?bs]\<rparr>)"
        by blast
      let ?e' = "e\<lparr>election_state :=
                      ElectionState (curr_round ?st + 1) [] [c] (length (cand_lists h))
                        \<lparr>ballots = length (ballot_lists h)\<rparr> None (Some ?st)\<rparr>"
      let ?h' = "\<lparr>cand_lists = (cand_lists h)[?r := remove1 c ?rem] @ [remove1 c ?rem],
                   ballot_lists = ballot_lists h @ [map (strip_cand c) ?bs]\<rparr>"
      have at: "cand_lists ?h' ! remaining (election_state ?e') = remove1 c ?rem"
        by (simp add: nth_append)
      have bat: "ballot_lists ?h' ! ballots (profile (election_state ?e')) = map (strip_cand c) ?bs"
        by simp
      have len: "length (remove1 c ?rem) + 1 = length ?rem"
        using c rem1 by (simp add: length_remove1)
      have k': "int (length (get_all_winners (election_state ?e'))) = ?k"
        by simp
      have ws: "map weight (map (strip_cand c) ?bs) = map weight ?bs"
        by (simp add: weight_stripped)
      have n': "\<forall>b \<in> set (map (strip_cand c) ?bs). 0 \<le> weight b"
        using nonneg by (simp add: weight_stripped)
      have left': "seats e - ?k \<le> int (length (remove1 c ?rem))"
        using left False len by linarith
      have "election_inv W0 ?e' ?h'"
        unfolding election_inv_def k' at bat ws
        using dist n' tr tpos quota wsum ks left' by simp
      moreover have "length (cand_lists ?h' ! remaining (election_state ?e')) < length ?rem"
        unfolding at using len by linarith
      moreover have "curr_round (election_state ?e') = curr_round ?st + 1"
        by simp
      ultimately show ?thesis using run by blast
    qed
  qed
qed

lemma run_loop_terminates:
  assumes "next_round e \<longrightarrow> election_inv W0 e h"
    and "length (cand_lists h ! remaining (election_state e)) \<le> length ds"
  shows "\<exists>e' h'. run_loop ds e h = Some (Inr (e', h')) \<and> \<not> next_round e'
           \<and> curr_round (election_state e')
                + int (length (cand_lists h' ! remaining (election_state e')))
               \<le> curr_round (election_state e)
                  + int (length (cand_lists h ! remaining (election_state e)))"
  using assms
proof (induction ds arbitrary: e h)
  case Nil
  have "\<not> next_round e"
  proof
    assume nr: "next_round e"
    with Nil.prems(1) have "election_inv W0 e h" by simp
    then have "int (length (get_all_winners (election_state e))) \<le> seats e"
      and "seats e - int (length (get_all_winners (election_state e)))
             \<le> int (length (cand_lists h ! remaining (election_state e)))"
      by (simp_all add: election_inv_def)
    moreover from nr have "int (length (get_all_winners (election_state e))) \<noteq> seats e"
      by (simp add: next_round_def)
    ultimately show False using Nil.prems(2) by simp
  qed
  then show ?case by simp
next
  case (Cons d ds)
  show ?case
  proof (cases "next_round e")
    case False
    then show ?thesis by simp
  next
    case True
    with Cons.prems(1) have inv: "election_inv W0 e h" by simp
    from run_step_inv[OF inv True, of d]
    obtain e1 h1 where step: "run_step d e h = Inr (e1, h1)"
      and less: "length (cand_lists h1 ! remaining (election_state e1))
                   < length (cand_lists h ! remaining (election_state e))"
      and rnd: "curr_round (election_state e1) = curr_round (election_state e) + 1"
      and inv1: "next_round e1 \<longrightarrow> election_inv W0 e1 h1"
      by blast
    from less Cons.prems(2)
    have "length (cand_lists h1 ! remaining (election_state e1)) \<le> length ds"
      by simp
    from Cons.IH[OF inv1 this]
    obtain e' h' where loop: "run_loop ds e1 h1 = Some (Inr (e', h'))"
      and fin: "\<not> next_round e'"
      and bound: "curr_round (election_state e')
                + int (length (cand_lists h' ! remaining (election_state e')))
               \<le> curr_round (election_state e1)
                  + int (length (cand_lists h1 ! remaining (election_state e1)))"
      by blast
    have "run_loop (d # ds) e h = Some (Inr (e', h'))"
      using True step loop by simp
    moreover have "curr_round (election_state e')
                + int (length (cand_lists h' ! remaining (election_state e')))
               \<le> curr_round (election_state e)
                  + int (length (cand_lists h ! remaining (election_state e)))"
      using bound rnd less by linarith
    ultimately show ?thesis using fin by blast
  qed
qed

lemma STV_init_threshold:
  assumes "STV_init cands prof tr s h = Inr (e0, h0)"
  shows "threshold e0
           = py_int (sum_list (map weight (ballot_lists h ! ballots prof)) / of_int (s + 1) + 1)"
  using assms
  by (auto simp: STV_init_def new_ElectionState_eq get_threshold_def num_ballots_def
      split: sum.splits if_splits)

lemma STV_init_succeeds:
  assumes "s + 1 \<noteq> 0"
  shows "\<exists>e0 h0. STV_init cands prof tr s h = Inr (e0, h0)"
  using assms by (simp add: STV_init_def new_ElectionState_eq get_threshold_def)

lemma droop_exceeds:
  fixes W :: rat
  assumes "0 < n"
  shows "W < of_int (n * (\<lfloor>W / of_int n\<rfloor> + 1))"
proof -
  have "W / of_int n < of_int (\<lfloor>W / of_int n\<rfloor> + 1)"
    by linarith
  then have "W < of_int (\<lfloor>W / of_int n\<rfloor> + 1) * of_int n"
    using assms by (simp add: pos_divide_less_eq)
  then show ?thesis by (simp add: mult.commute)
qed

text \<open>
  Claim C9.  Let the profile have ballots whose weights are not negative, let
  \<^verbatim>\<open>get_candidates()\<close> enumerate its candidates as \<open>cands\<close>, and let the seat count be
  positive and at most the number of candidates.  Then the engine with
  \<^verbatim>\<open>fractional_transfer\<close> is constructed, and for every sequence of random draws (one per
  round, at least as many as there are candidates) \<^verbatim>\<open>run_election\<close> returns without an
  exception: \<^verbatim>\<open>next_round()\<close> is false for the engine it leaves, after at most as many
  rounds as there are candidates.
\<close>

theorem election_terminates:
  assumes cands: "get_candidates_returns prof h cands"
    and valid: "ballots prof < length (ballot_lists h)"
    and nonneg: "\<forall>b \<in> set (ballot_lists h ! ballots prof). 0 \<le> weight b"
    and seats: "0 < s \<and> s \<le> int (length cands)"
    and draws: "length cands \<le> length ds"
  shows "\<exists>e0 h0 e h1. STV_init cands prof fractional_transfer s h = Inr (e0, h0)
           \<and> run_election ds e0 h0 = Some (Inr (e, h1))
           \<and> \<not> next_round e
           \<and> curr_round (election_state e) \<le> int (length cands)"
proof -
  let ?bs = "ballot_lists h ! ballots prof"
  let ?W = "sum_list (map weight ?bs)"
  from cands have d: "distinct cands"
    by (simp add: get_candidates_returns_def)
  from seats have s1: "s + 1 \<noteq> 0" and spos: "0 < s + 1" by simp_all
  from STV_init_succeeds[OF s1]
  obtain e0 h0 where init: "STV_init cands prof fractional_transfer s h = Inr (e0, h0)"
    by blast
  note st = STV_init_state[OF init]
  have W0: "0 \<le> ?W"
    by (rule sum_list_nonneg) (use nonneg in auto)
  then have q: "0 \<le> ?W / of_int (s + 1)"
    using spos by simp
  have thr: "threshold e0 = \<lfloor>?W / of_int (s + 1)\<rfloor> + 1"
    unfolding STV_init_threshold[OF init] using q by (rule py_int_floor)
  have "0 \<le> \<lfloor>?W / of_int (s + 1)\<rfloor>"
    using q by simp
  then have tpos: "0 < threshold e0"
    unfolding thr by simp
  have quota: "?W < of_int ((seats e0 + 1) * threshold e0)"
    unfolding thr st(3) using spos by (rule droop_exceeds)
  have rem0: "cand_lists h0 ! remaining (election_state e0) = map fst (compute_votes cands ?bs)"
    unfolding st by simp
  have len0: "length (cand_lists h0 ! remaining (election_state e0)) = length cands"
    unfolding rem0 using d by (simp add: compute_votes_length)
  have bs0: "ballot_lists h0 ! ballots (profile (election_state e0)) = ?bs"
    unfolding st by simp
  have w0: "get_all_winners (election_state e0) = []"
    unfolding st by simp
  have inv: "election_inv ?W e0 h0"
    unfolding election_inv_def bs0 w0 len0
    using valid nonneg tpos quota seats compute_votes_distinct[of cands ?bs]
    by (simp add: st)
  have nr: "next_round e0"
    using seats by (simp add: next_round_def w0 st(3))
  from inv have "next_round e0 \<longrightarrow> election_inv ?W e0 h0" by simp
  moreover have "length (cand_lists h0 ! remaining (election_state e0)) \<le> length ds"
    unfolding len0 by (rule draws)
  ultimately obtain e h1 where loop: "run_loop ds e0 h0 = Some (Inr (e, h1))"
    and fin: "\<not> next_round e"
    and bound: "curr_round (election_state e)
                + int (length (cand_lists h1 ! remaining (election_state e)))
               \<le> curr_round (election_state e0)
                  + int (length (cand_lists h0 ! remaining (election_state e0)))"
    using run_loop_terminates by blast
  have "run_election ds e0 h0 = Some (Inr (e, h1))"
    using nr loop by (simp add: run_election_def)
  moreover have "curr_round (election_state e) \<le> int (length cands)"
    using bound unfolding len0 by (simp add: st)
  ultimately show ?thesis using init fin by blast
qed

text \<open>
  The theorem at work on the ballots of the tests with one seat: the election ends after
  two rounds, C eliminated and B elected.
\<close>

theorem election_terminates_witness:
  "(\<exists>e0 h0 e h1. STV_init [''A'', ''B'', ''C''] pref_0 fractional_transfer 1 store_0 = Inr (e0, h0)
           \<and> run_election [0, 0, 0] e0 h0 = Some (Inr (e, h1))
           \<and> \<not> next_round e
           \<and> curr_round (election_state e) \<le> int (length [''A'', ''B'', ''C'']))
   \<and> (case run_election [0, 0, 0] (stv_1 1 276) store_1 of
         None \<Rightarrow> False
       | Some res \<Rightarrow>
           (case res of
              Inl err \<Rightarrow> False
            | Inr (e, h1) \<Rightarrow>
                get_all_winners (election_state e) = [''B'']
                \<and> get_all_eliminated (election_state e) = [''C'']
                \<and> curr_round (election_state e) = 2))"
proof (rule conjI)
  have v: "ballots pref_0 < length (ballot_lists store_0)"
    by (simp add: pref_0_def store_0_def)
  have s: "(0::int) < 1 \<and> 1 \<le> int (length [''A'', ''B'', ''C''])"
    by simp
  have d: "length [''A'', ''B'', ''C''] \<le> length [0::nat, 0, 0]"
    by simp
  from get_candidates_fixture v store_0_nonneg s d
  show "\<exists>e0 h0 e h1. STV_init [''A'', ''B'', ''C''] pref_0 fractional_transfer 1 store_0 = Inr (e0, h0)
           \<and> run_election [0, 0, 0] e0 h0 = Some (Inr (e, h1))
           \<and> \<not> next_round e
           \<and> curr_round (election_state e) \<le> int (length [''A'', ''B'', ''C''])"
    by (rule election_terminates)
  show "case run_election [0, 0, 0] (stv_1 1 276) store_1 of
         None \<Rightarrow> False
       | Some res \<Rightarrow>
           (case res of
              Inl err \<Rightarrow> False
            | Inr (e, h1) \<Rightarrow>
                get_all_winners (election_state e) = [''B'']
                \<and> get_all_eliminated (election_state e) = [''C'']
                \<and> curr_round (election_state e) = 2)"
    by code_simp
qed

end
